theory Spec2Isabelle
  imports Main "HOL-Library.Monad_Syntax"
begin

section \<open>Python values\<close>

text \<open>
  The bot works on what \<^verbatim>\<open>json.load\<close> and \<^verbatim>\<open>response.json()\<close> return: \<^verbatim>\<open>None\<close>,
  booleans, integers, strings, lists and dicts. A dict is an association list in insertion
  order, read by first match. Strings are lists of 8-bit characters, so a character beyond
  ASCII is its UTF-8 bytes. Floating-point numbers are not part of this model.
\<close>

datatype json =
    JNull
  | JBool bool
  | JInt int
  | JStr string
  | JArr "json list"
  | JObj "(string \<times> json) list"

type_synonym event = "(string \<times> json) list"
type_synonym snapshot = "(string \<times> event) list"

datatype error = KeyError string | TypeError | AttributeError

text \<open>\<^verbatim>\<open>k in d\<close>, \<^verbatim>\<open>d.get(k)\<close> (default \<^verbatim>\<open>None\<close>), \<^verbatim>\<open>d[k]\<close> and \<^verbatim>\<open>d[k] = v\<close> on a dict.\<close>

definition has_key :: "('k \<times> 'v) list \<Rightarrow> 'k \<Rightarrow> bool" where
  "has_key d k = (map_of d k \<noteq> None)"

definition get :: "(string \<times> json) list \<Rightarrow> string \<Rightarrow> json" where
  "get d k = (case map_of d k of None \<Rightarrow> JNull | Some v \<Rightarrow> v)"

definition get_default :: "(string \<times> json) list \<Rightarrow> string \<Rightarrow> json \<Rightarrow> json" where
  "get_default d k dflt = (case map_of d k of None \<Rightarrow> dflt | Some v \<Rightarrow> v)"

definition subscript :: "(string \<times> 'v) list \<Rightarrow> string \<Rightarrow> error + 'v" where
  "subscript d k = (case map_of d k of None \<Rightarrow> Inl (KeyError k) | Some v \<Rightarrow> Inr v)"

fun dict_set :: "('k \<times> 'v) list \<Rightarrow> 'k \<Rightarrow> 'v \<Rightarrow> ('k \<times> 'v) list" where
  "dict_set [] k v = [(k, v)]"
| "dict_set ((k', v') # d) k v =
     (if k' = k then (k, v) # d else (k', v') # dict_set d k v)"

text \<open>\<^verbatim>\<open>x[k]\<close> with a string key on any value: only a dict can be indexed by a string.\<close>

fun subscript_json :: "json \<Rightarrow> string \<Rightarrow> error + json" where
  "subscript_json (JObj d) k = subscript d k"
| "subscript_json _ k = Inl TypeError"

text \<open>Truth value of a Python object, as \<^verbatim>\<open>if x\<close> and \<^verbatim>\<open>not x\<close> test it.\<close>

fun truthy :: "json \<Rightarrow> bool" where
  "truthy JNull = False"
| "truthy (JBool b) = b"
| "truthy (JInt i) = (i \<noteq> 0)"
| "truthy (JStr s) = (s \<noteq> [])"
| "truthy (JArr xs) = (xs \<noteq> [])"
| "truthy (JObj d) = (d \<noteq> [])"

text \<open>
  Python's \<^verbatim>\<open>==\<close>: a boolean equals the integer 0 or 1, lists are equal elementwise, and
  dicts are equal when they have the same keys with equal values, in any order.
\<close>

fun py_eq :: "json \<Rightarrow> json \<Rightarrow> bool" where
  "py_eq JNull y = (y = JNull)"
| "py_eq (JBool b) y =
     (case y of JBool c \<Rightarrow> b = c | JInt j \<Rightarrow> j = (if b then 1 else 0) | _ \<Rightarrow> False)"
| "py_eq (JInt i) y =
     (case y of JBool c \<Rightarrow> i = (if c then 1 else 0) | JInt j \<Rightarrow> i = j | _ \<Rightarrow> False)"
| "py_eq (JStr s) y = (y = JStr s)"
| "py_eq (JArr xs) y =
     (case y of JArr ys \<Rightarrow> list_all2 py_eq xs ys | _ \<Rightarrow> False)"
| "py_eq (JObj a) y =
     (case y of
        JObj b \<Rightarrow>
          set (map fst a) = set (map fst b) \<and>
          list_all (\<lambda>kv. map_of a (fst kv) = Some (snd kv) \<longrightarrow>
                      (case map_of b (fst kv) of None \<Rightarrow> False
                       | Some w \<Rightarrow> py_eq (snd kv) w)) a
      | _ \<Rightarrow> False)"

definition py_ne :: "json \<Rightarrow> json \<Rightarrow> bool" where
  "py_ne x y = (\<not> py_eq x y)"


section \<open>Text\<close>

text \<open>\<^verbatim>\<open>sep.join(parts)\<close>.\<close>

fun join :: "string \<Rightarrow> string list \<Rightarrow> string" where
  "join sep [] = []"
| "join sep [x] = x"
| "join sep (x # y # ys) = x @ sep @ join sep (y # ys)"

text \<open>Decimal digits: \<^verbatim>\<open>str(n)\<close> of an integer, and \<^verbatim>\<open>int(s)\<close> of a run of digits.\<close>

definition is_digit :: "char \<Rightarrow> bool" where
  "is_digit c = (48 \<le> (of_char c :: nat) \<and> (of_char c :: nat) \<le> 57)"

definition digit_val :: "char \<Rightarrow> nat" where
  "digit_val c = of_char c - 48"

definition digit_char :: "nat \<Rightarrow> char" where
  "digit_char n = char_of (48 + n)"

fun dec :: "nat \<Rightarrow> string" where
  "dec n = (if n < 10 then [digit_char n] else dec (n div 10) @ [digit_char (n mod 10)])"

declare dec.simps [simp del]

definition str_int :: "int \<Rightarrow> string" where
  "str_int i = (if i < 0 then CHR ''-'' # dec (nat (- i)) else dec (nat i))"

definition int_of_digits :: "string \<Rightarrow> nat" where
  "int_of_digits s = foldl (\<lambda>a c. 10 * a + digit_val c) 0 s"

text \<open>
  \<^verbatim>\<open>repr\<close> of a string: single quotes, unless the string has a single quote and no
  double quote; the quote and the backslash are escaped, control characters are written
  as \<^verbatim>\<open>\t\<close>, \<^verbatim>\<open>\n\<close>, \<^verbatim>\<open>\r\<close> or \<^verbatim>\<open>\xhh\<close>. Bytes beyond ASCII are kept as they are.
\<close>

definition hex_digit :: "nat \<Rightarrow> char" where
  "hex_digit n = (if n < 10 then char_of (48 + n) else char_of (87 + n))"

definition repr_char :: "char \<Rightarrow> char \<Rightarrow> string" where
  "repr_char q c =
     (if c = q \<or> c = CHR 0x5C then [CHR 0x5C, c]
      else if c = CHR 0x09 then [CHR 0x5C, CHR ''t'']
      else if c = CHR 0x0A then [CHR 0x5C, CHR ''n'']
      else if c = CHR 0x0D then [CHR 0x5C, CHR ''r'']
      else if (of_char c :: nat) < 32 \<or> (of_char c :: nat) = 127
        then [CHR 0x5C, CHR ''x'', hex_digit (of_char c div 16), hex_digit (of_char c mod 16)]
      else [c])"

definition repr_str :: "string \<Rightarrow> string" where
  "repr_str s =
     (let q = (if CHR 0x27 \<in> set s \<and> CHR 0x22 \<notin> set s then CHR 0x22 else CHR 0x27)
      in q # concat (map (repr_char q) s) @ [q])"

fun py_repr :: "json \<Rightarrow> string" where
  "py_repr JNull = ''None''"
| "py_repr (JBool b) = (if b then ''True'' else ''False'')"
| "py_repr (JInt i) = str_int i"
| "py_repr (JStr s) = repr_str s"
| "py_repr (JArr xs) = ''['' @ join '', '' (map py_repr xs) @ '']''"
| "py_repr (JObj d) =
     ''{'' @ join '', '' (map (\<lambda>kv. repr_str (fst kv) @ '': '' @ py_repr (snd kv)) d) @ ''}''"

text \<open>\<^verbatim>\<open>str(x)\<close>, which is also how an f-string renders \<^verbatim>\<open>{x}\<close>.\<close>

definition py_str :: "json \<Rightarrow> string" where
  "py_str v = (case v of JStr s \<Rightarrow> s | _ \<Rightarrow> py_repr v)"

section \<open>Timestamps\<close>

text \<open>
  \<^verbatim>\<open>datetime.strptime(dt_str, "%Y-%m-%d %H:%M:%S")\<close> matches the string against the
  pattern the format compiles to,
  \<^verbatim>\<open>(\d\d\d\d)-(1[0-2]|0[1-9]|[1-9])-(3[0-1]|[1-2]\d|0[1-9]|[1-9]| [1-9])\s+\<close>
  \<^verbatim>\<open>(2[0-3]|[0-1]\d|\d):([0-5]\d|\d):(6[0-1]|[0-5]\d|\d)\<close>,
  requires that nothing remains after the match, and builds the date from the groups,
  which fails for a year 0, a day the month does not have, or a second above 59.
  Every field is followed by a character no field can contain, so the first alternative
  that matches is the one the whole match uses. Digits and white space are the ASCII ones.
\<close>

definition is_space :: "char \<Rightarrow> bool" where
  "is_space c = ((9 \<le> (of_char c :: nat) \<and> (of_char c :: nat) \<le> 13) \<or>
                 (28 \<le> (of_char c :: nat) \<and> (of_char c :: nat) \<le> 32))"

definition in_range :: "char \<Rightarrow> char \<Rightarrow> char \<Rightarrow> bool" where
  "in_range lo hi c = ((of_char lo :: nat) \<le> of_char c \<and> (of_char c :: nat) \<le> of_char hi)"

fun match_Y :: "string \<Rightarrow> (nat \<times> string) option" where
  "match_Y (a # b # c # d # rest) =
     (if is_digit a \<and> is_digit b \<and> is_digit c \<and> is_digit d
      then Some (int_of_digits [a, b, c, d], rest) else None)"
| "match_Y _ = None"

fun match_m :: "string \<Rightarrow> (nat \<times> string) option" where
  "match_m (a # b # rest) =
     (if a = CHR ''1'' \<and> in_range CHR ''0'' CHR ''2'' b then Some (int_of_digits [a, b], rest)
      else if a = CHR ''0'' \<and> in_range CHR ''1'' CHR ''9'' b then Some (int_of_digits [a, b], rest)
      else if in_range CHR ''1'' CHR ''9'' a then Some (int_of_digits [a], b # rest)
      else None)"
| "match_m [a] = (if in_range CHR ''1'' CHR ''9'' a then Some (int_of_digits [a], []) else None)"
| "match_m [] = None"

fun match_d :: "string \<Rightarrow> (nat \<times> string) option" where
  "match_d (a # b # rest) =
     (if a = CHR ''3'' \<and> in_range CHR ''0'' CHR ''1'' b then Some (int_of_digits [a, b], rest)
      else if in_range CHR ''1'' CHR ''2'' a \<and> is_digit b then Some (int_of_digits [a, b], rest)
      else if a = CHR ''0'' \<and> in_range CHR ''1'' CHR ''9'' b then Some (int_of_digits [a, b], rest)
      else if in_range CHR ''1'' CHR ''9'' a then Some (int_of_digits [a], b # rest)
      else if a = CHR '' '' \<and> in_range CHR ''1'' CHR ''9'' b then Some (int_of_digits [b], rest)
      else None)"
| "match_d [a] = (if in_range CHR ''1'' CHR ''9'' a then Some (int_of_digits [a], []) else None)"
| "match_d [] = None"

fun match_H :: "string \<Rightarrow> (nat \<times> string) option" where
  "match_H (a # b # rest) =
     (if a = CHR ''2'' \<and> in_range CHR ''0'' CHR ''3'' b then Some (int_of_digits [a, b], rest)
      else if in_range CHR ''0'' CHR ''1'' a \<and> is_digit b then Some (int_of_digits [a, b], rest)
      else if is_digit a then Some (int_of_digits [a], b # rest)
      else None)"
| "match_H [a] = (if is_digit a then Some (int_of_digits [a], []) else None)"
| "match_H [] = None"

fun match_M :: "string \<Rightarrow> (nat \<times> string) option" where
  "match_M (a # b # rest) =
     (if in_range CHR ''0'' CHR ''5'' a \<and> is_digit b then Some (int_of_digits [a, b], rest)
      else if is_digit a then Some (int_of_digits [a], b # rest)
      else None)"
| "match_M [a] = (if is_digit a then Some (int_of_digits [a], []) else None)"
| "match_M [] = None"

fun match_S :: "string \<Rightarrow> (nat \<times> string) option" where
  "match_S (a # b # rest) =
     (if a = CHR ''6'' \<and> in_range CHR ''0'' CHR ''1'' b then Some (int_of_digits [a, b], rest)
      else if in_range CHR ''0'' CHR ''5'' a \<and> is_digit b then Some (int_of_digits [a, b], rest)
      else if is_digit a then Some (int_of_digits [a], b # rest)
      else None)"
| "match_S [a] = (if is_digit a then Some (int_of_digits [a], []) else None)"
| "match_S [] = None"

text \<open>A literal character of the pattern, and \<^verbatim>\<open>\s+\<close>.\<close>

fun match_char :: "char \<Rightarrow> string \<Rightarrow> string option" where
  "match_char c [] = None"
| "match_char c (x # xs) = (if x = c then Some xs else None)"

fun match_spaces :: "string \<Rightarrow> string option" where
  "match_spaces [] = None"
| "match_spaces (x # xs) = (if is_space x then Some (dropWhile is_space xs) else None)"

record datetime =
  year :: nat
  month :: nat
  day :: nat
  hour :: nat
  minute :: nat
  second :: nat

definition is_leap :: "nat \<Rightarrow> bool" where
  "is_leap y = (y mod 4 = 0 \<and> (y mod 100 \<noteq> 0 \<or> y mod 400 = 0))"

definition days_in_month :: "nat \<Rightarrow> nat \<Rightarrow> nat" where
  "days_in_month y m =
     (if m = 2 then (if is_leap y then 29 else 28)
      else if m = 4 \<or> m = 6 \<or> m = 9 \<or> m = 11 then 30 else 31)"

definition valid_datetime :: "datetime \<Rightarrow> bool" where
  "valid_datetime dt =
     (1 \<le> year dt \<and> year dt \<le> 9999 \<and> 1 \<le> month dt \<and> month dt \<le> 12 \<and>
      1 \<le> day dt \<and> day dt \<le> days_in_month (year dt) (month dt) \<and>
      hour dt \<le> 23 \<and> minute dt \<le> 59 \<and> second dt \<le> 59)"

definition strptime :: "string \<Rightarrow> datetime option" where
  "strptime s = do {
     (Y, s1) \<leftarrow> match_Y s;
     s2 \<leftarrow> match_char CHR ''-'' s1;
     (m, s3) \<leftarrow> match_m s2;
     s4 \<leftarrow> match_char CHR ''-'' s3;
     (d, s5) \<leftarrow> match_d s4;
     s6 \<leftarrow> match_spaces s5;
     (H, s7) \<leftarrow> match_H s6;
     s8 \<leftarrow> match_char CHR '':'' s7;
     (M, s9) \<leftarrow> match_M s8;
     s10 \<leftarrow> match_char CHR '':'' s9;
     (S, s11) \<leftarrow> match_S s10;
     let dt = \<lparr>year = Y, month = m, day = d, hour = H, minute = M, second = S\<rparr>;
     if s11 = [] \<and> valid_datetime dt then Some dt else None
   }"

text \<open>
  \<^verbatim>\<open>int(dt.replace(tzinfo=timezone.utc).timestamp())\<close>: the seconds from 1970-01-01
  00:00:00 UTC, counted in the proleptic Gregorian calendar (day 719163 is 1970-01-01).
\<close>

definition days_before_year :: "nat \<Rightarrow> nat" where
  "days_before_year y = (y - 1) * 365 + (y - 1) div 4 - (y - 1) div 100 + (y - 1) div 400"

definition days_before_month :: "nat \<Rightarrow> nat \<Rightarrow> nat" where
  "days_before_month y m = sum_list (map (days_in_month y) [1..<m])"

definition toordinal :: "datetime \<Rightarrow> nat" where
  "toordinal dt = days_before_year (year dt) + days_before_month (year dt) (month dt) + day dt"

definition timestamp :: "datetime \<Rightarrow> int" where
  "timestamp dt =
     (int (toordinal dt) - 719163) * 86400
       + int (hour dt) * 3600 + int (minute dt) * 60 + int (second dt)"

text \<open>
  \<^verbatim>\<open>discord_timestamp\<close> never raises: whatever \<^verbatim>\<open>strptime\<close> rejects, a value that is
  not a string included, comes back unchanged.
\<close>

definition discord_timestamp :: "json \<Rightarrow> string \<Rightarrow> json" where
  "discord_timestamp dt_str style =
     (case dt_str of
        JStr s \<Rightarrow>
          (case strptime s of
             Some dt \<Rightarrow> JStr (''<t:'' @ str_int (timestamp dt) @ '':'' @ style @ ''>'')
           | None \<Rightarrow> dt_str)
      | _ \<Rightarrow> dt_str)"


section \<open>The field-level diff\<close>

text \<open>
  The diff of two events maps a field label to the pair of the old and the new normalised
  value; the labels are written in the order of \<^verbatim>\<open>fields_to_check\<close>.
\<close>

type_synonym diffs = "(string \<times> (json \<times> json)) list"

definition fields_to_check :: "(string \<times> string) list" where
  "fields_to_check =
     [(''name'', ''Name''),
      (''start_at'', ''Start Time''),
      (''meetup_at'', ''Meetup Time''),
      (''server'', ''Server''),
      (''map'', ''Map''),
      (''banner'', ''Banner''),
      (''departure'', ''Start Location''),
      (''arrive'', ''End Location''),
      (''description'', ''Description'')]"

text \<open>
  The three normalisation steps of the loop body, as they act on one of the two values:
  a server dict gives its name, a location dict gives \<^verbatim>\<open>"{city} ({location})"\<close>, and a
  timestamp that is not falsy gives \<^verbatim>\<open>discord_timestamp(value, "F")\<close>.
\<close>

definition normalize :: "string \<Rightarrow> json \<Rightarrow> json" where
  "normalize key val =
     (let val = (if key = ''server''
                 then (case val of JObj d \<Rightarrow> get d ''name'' | _ \<Rightarrow> val) else val);
          val = (if key = ''departure'' \<or> key = ''arrive''
                 then (case val of
                         JObj d \<Rightarrow>
                           JStr (py_str (get d ''city'') @ '' ('' @ py_str (get d ''location'') @ '')'')
                       | _ \<Rightarrow> val)
                 else val);
          val = (if key = ''start_at'' \<or> key = ''meetup_at''
                 then (if truthy val then discord_timestamp val ''F'' else val) else val)
      in val)"

definition bind_err :: "error + 'a \<Rightarrow> ('a \<Rightarrow> error + 'b) \<Rightarrow> error + 'b" where
  "bind_err r f = (case r of Inl e \<Rightarrow> Inl e | Inr v \<Rightarrow> f v)"

text \<open>
  One pass of the loop body. A changed description is printed before it is recorded, and
  the printed line reads \<^verbatim>\<open>new_event['id']\<close> and \<^verbatim>\<open>new_event['name']\<close>, which raise
  \<^verbatim>\<open>KeyError\<close> when the key is missing. What is printed is not part of the model.
\<close>

definition check_field :: "event \<Rightarrow> event \<Rightarrow> string \<Rightarrow> string \<Rightarrow> diffs \<Rightarrow> error + diffs" where
  "check_field old_event new_event key label diffs =
     (let old_val = normalize key (get old_event key);
          new_val = normalize key (get new_event key)
      in if key = ''description'' then
           (if py_ne old_val new_val then
              bind_err (subscript new_event ''id'') (\<lambda>_.
              bind_err (subscript new_event ''name'') (\<lambda>_.
              Inr (dict_set diffs label (old_val, new_val))))
            else Inr diffs)
         else if py_ne old_val new_val then Inr (dict_set diffs label (old_val, new_val))
         else Inr diffs)"

fun compare_loop :: "event \<Rightarrow> event \<Rightarrow> (string \<times> string) list \<Rightarrow> diffs \<Rightarrow> error + diffs" where
  "compare_loop old_event new_event [] diffs = Inr diffs"
| "compare_loop old_event new_event ((key, label) # rest) diffs =
     bind_err (check_field old_event new_event key label diffs)
       (compare_loop old_event new_event rest)"

definition compare_events :: "event \<Rightarrow> event \<Rightarrow> error + diffs" where
  "compare_events old_event new_event = compare_loop old_event new_event fields_to_check []"

section \<open>The snapshot diff\<close>

text \<open>
  A change record is the tuple \<^verbatim>\<open>(change_type, event, diffs)\<close> of the source, with
  \<^verbatim>\<open>None\<close> for the diffs of a created or removed event.
\<close>

type_synonym change = "string \<times> event \<times> diffs option"

fun loop_new :: "snapshot \<Rightarrow> snapshot \<Rightarrow> change list \<Rightarrow> error + change list" where
  "loop_new old_db [] changes = Inr changes"
| "loop_new old_db ((event_id, event) # rest) changes =
     (if \<not> has_key old_db event_id
      then loop_new old_db rest (changes @ [(''created'', event, None)])
      else bind_err (subscript old_db event_id) (\<lambda>old_event.
           bind_err (compare_events old_event event) (\<lambda>diffs.
           if diffs \<noteq> [] then loop_new old_db rest (changes @ [(''updated'', event, Some diffs)])
           else loop_new old_db rest changes)))"

fun loop_old :: "snapshot \<Rightarrow> snapshot \<Rightarrow> change list \<Rightarrow> change list" where
  "loop_old new_db [] changes = changes"
| "loop_old new_db ((event_id, event) # rest) changes =
     (if \<not> has_key new_db event_id
      then loop_old new_db rest (changes @ [(''removed'', event, None)])
      else loop_old new_db rest changes)"

definition detect_changes :: "snapshot \<Rightarrow> snapshot \<Rightarrow> error + change list" where
  "detect_changes old_db new_db =
     bind_err (loop_new old_db new_db []) (\<lambda>changes. Inr (loop_old new_db old_db changes))"

text \<open>
  The same two loops, each record together with the key \<^verbatim>\<open>event_id\<close> under which the
  loop found its event. The source's records carry the event only; the key is kept here
  to state which id a record belongs to.
\<close>

fun loop_new_ids ::
  "snapshot \<Rightarrow> snapshot \<Rightarrow> (string \<times> change) list \<Rightarrow> error + (string \<times> change) list" where
  "loop_new_ids old_db [] changes = Inr changes"
| "loop_new_ids old_db ((event_id, event) # rest) changes =
     (if \<not> has_key old_db event_id
      then loop_new_ids old_db rest (changes @ [(event_id, ''created'', event, None)])
      else bind_err (subscript old_db event_id) (\<lambda>old_event.
           bind_err (compare_events old_event event) (\<lambda>diffs.
           if diffs \<noteq> []
           then loop_new_ids old_db rest (changes @ [(event_id, ''updated'', event, Some diffs)])
           else loop_new_ids old_db rest changes)))"

fun loop_old_ids ::
  "snapshot \<Rightarrow> snapshot \<Rightarrow> (string \<times> change) list \<Rightarrow> (string \<times> change) list" where
  "loop_old_ids new_db [] changes = changes"
| "loop_old_ids new_db ((event_id, event) # rest) changes =
     (if \<not> has_key new_db event_id
      then loop_old_ids new_db rest (changes @ [(event_id, ''removed'', event, None)])
      else loop_old_ids new_db rest changes)"

definition detect_changes_ids :: "snapshot \<Rightarrow> snapshot \<Rightarrow> error + (string \<times> change) list" where
  "detect_changes_ids old_db new_db =
     bind_err (loop_new_ids old_db new_db [])
       (\<lambda>changes. Inr (loop_old_ids new_db old_db changes))"


section \<open>The notification\<close>

text \<open>The symbols of the message texts, as their UTF-8 bytes.\<close>

definition sym_new :: string where "sym_new = [CHR 0xF0, CHR 0x9F, CHR 0x86, CHR 0x95]"
definition sym_cross :: string where "sym_cross = [CHR 0xE2, CHR 0x9D, CHR 0x8C]"
definition sym_arrows :: string where "sym_arrows = [CHR 0xF0, CHR 0x9F, CHR 0x94, CHR 0x84]"
definition sym_sparkles :: string where "sym_sparkles = [CHR 0xE2, CHR 0x9C, CHR 0xA8]"
definition sym_game :: string where "sym_game = [CHR 0xF0, CHR 0x9F, CHR 0x8E, CHR 0xAE]"
definition sym_link :: string where "sym_link = [CHR 0xF0, CHR 0x9F, CHR 0x94, CHR 0x97]"
definition sym_calendar :: string where "sym_calendar = [CHR 0xF0, CHR 0x9F, CHR 0x93, CHR 0x85]"
definition sym_clock :: string where "sym_clock = [CHR 0xF0, CHR 0x9F, CHR 0x95, CHR 0x92]"
definition sym_light :: string where "sym_light = [CHR 0xF0, CHR 0x9F, CHR 0x9A, CHR 0xA6]"
definition sym_globe :: string where "sym_globe = [CHR 0xF0, CHR 0x9F, CHR 0x8C, CHR 0x8D]"
definition sym_flag :: string where "sym_flag = [CHR 0xF0, CHR 0x9F, CHR 0x9A, CHR 0xA9]"
definition sym_finish :: string where "sym_finish = [CHR 0xF0, CHR 0x9F, CHR 0x8F, CHR 0x81]"
definition sym_memo :: string where "sym_memo = [CHR 0xF0, CHR 0x9F, CHR 0x93, CHR 0x9D]"
definition sym_wrench :: string where "sym_wrench = [CHR 0xF0, CHR 0x9F, CHR 0x94, CHR 0xA7]"

definition embed_field :: "string \<Rightarrow> string \<Rightarrow> bool \<Rightarrow> json" where
  "embed_field name val inl =
     JObj [(''name'', JStr name), (''value'', JStr val), (''inline'', JBool inl)]"

text \<open>One line of the \<^verbatim>\<open>Changes\<close> field per entry of the diff, and the field itself.\<close>

definition diff_line :: "string \<times> (json \<times> json) \<Rightarrow> string" where
  "diff_line entry =
     (case entry of (field, (old, new)) \<Rightarrow>
        if field = ''Description'' then sym_memo @ '' **Description changed**''
        else ''**'' @ field @ '':** `'' @ py_str old @ ''` -> `'' @ py_str new @ ''`'')"

definition changes_field :: "diffs \<Rightarrow> json" where
  "changes_field diffs =
     (let diff_text = join [CHR 0x0A] (map diff_line diffs)
      in embed_field (sym_wrench @ '' Changes'')
           (if diff_text \<noteq> [] then diff_text else ''No details'') False)"

definition embed_title :: "string \<Rightarrow> json \<Rightarrow> string" where
  "embed_title change_type name =
     (if change_type = ''created'' then sym_new @ '' Event Added: **'' @ py_str name @ ''**''
      else if change_type = ''removed'' then sym_cross @ '' Event Removed: **'' @ py_str name @ ''**''
      else sym_arrows @ '' Event Updated: **'' @ py_str name @ ''**'')"

definition embed_color :: "string \<Rightarrow> int" where
  "embed_color change_type =
     (if change_type = ''created'' then 0x2ECC71
      else if change_type = ''removed'' then 0xE74C3C
      else 0xE67E22)"

text \<open>
  \<^verbatim>\<open>build_embed\<close> reads the event in the order of the source, so the first missing key is
  the one that raises. \<^verbatim>\<open>event["meetup_at"]\<close> and the first \<^verbatim>\<open>event["start_at"]\<close> are
  read only after \<^verbatim>\<open>event.get\<close> of the same key was truthy, so they cannot raise; the
  second \<^verbatim>\<open>event["start_at"]\<close>, for the date, is read unconditionally. \<^verbatim>\<open>now\<close> is the
  text of \<^verbatim>\<open>datetime.utcnow().isoformat()\<close>.
\<close>

definition build_embed :: "string \<Rightarrow> event \<Rightarrow> string \<Rightarrow> diffs option \<Rightarrow> error + json" where
  "build_embed now event change_type diffs =
     (let meetup_time =
            (if truthy (get event ''meetup_at'')
             then py_str (discord_timestamp (get event ''meetup_at'') ''F'')
             else ''Not specified'');
          departure_time =
            (if truthy (get event ''start_at'')
             then py_str (discord_timestamp (get event ''start_at'') ''F'')
             else ''Not specified'')
      in
      bind_err (subscript event ''start_at'') (\<lambda>start_at.
      bind_err (subscript event ''departure'') (\<lambda>departure.
      bind_err (subscript_json departure ''city'') (\<lambda>dep_city.
      bind_err (subscript_json departure ''location'') (\<lambda>dep_location.
      bind_err (subscript event ''arrive'') (\<lambda>arrive.
      bind_err (subscript_json arrive ''city'') (\<lambda>arr_city.
      bind_err (subscript_json arrive ''location'') (\<lambda>arr_location.
      bind_err (subscript event ''name'') (\<lambda>name.
      bind_err (subscript event ''url'') (\<lambda>url.
      bind_err (subscript event ''vtc'') (\<lambda>vtc.
      bind_err (subscript_json vtc ''name'') (\<lambda>vtc_name.
      bind_err (subscript event ''game'') (\<lambda>game.
      bind_err (subscript event ''server'') (\<lambda>server.
      bind_err (subscript_json server ''name'') (\<lambda>server_name.
      bind_err (subscript event ''id'') (\<lambda>event_id.
      (let event_date = py_str (discord_timestamp start_at ''F'');
           start_location = py_str dep_city @ '' ('' @ py_str dep_location @ '')'';
           end_location = py_str arr_city @ '' ('' @ py_str arr_location @ '')'';
           fields =
             [embed_field (sym_calendar @ '' Date'') event_date False,
              embed_field (sym_clock @ '' Meetup Time'') meetup_time True,
              embed_field (sym_light @ '' Departure Time'') departure_time True,
              embed_field (sym_globe @ '' Server'') (''**'' @ py_str server_name @ ''**'') False,
              embed_field (sym_flag @ '' Start Location'') start_location False,
              embed_field (sym_finish @ '' End Location'') end_location False];
           fields =
             (case diffs of
                Some ds \<Rightarrow>
                  if change_type = ''updated'' \<and> ds \<noteq> [] then fields @ [changes_field ds]
                  else fields
              | None \<Rightarrow> fields)
       in Inr (JObj
            [(''username'', JStr ''TruckersMP Events Bot''),
             (''embeds'', JArr [JObj
               [(''title'', JStr (embed_title change_type name)),
                (''url'', JStr (''https://truckersmp.com'' @ py_str url)),
                (''color'', JInt (embed_color change_type)),
                (''description'', JStr (
                   sym_sparkles @ '' **Organized by:** '' @ py_str vtc_name @ [CHR 0x0A] @
                   sym_game @ '' **Game:** '' @ py_str game @ [CHR 0x0A] @
                   sym_link @ '' [View Event on TruckersMP](https://truckersmp.com'' @
                   py_str url @ '')'')),
                (''fields'', JArr fields),
                (''image'', JObj [(''url'', get_default event ''map'' (JStr []))]),
                (''thumbnail'', JObj [(''url'', get_default event ''banner'' (JStr []))]),
                (''footer'', JObj [(''text'',
                   JStr (''Event ID: '' @ py_str event_id @ '' | TruckersMP API''))]),
                (''timestamp'', JStr now)]])]))))))))))))))))))"

text \<open>
  \<^verbatim>\<open>send_to_discord\<close> builds the message outside its \<^verbatim>\<open>try\<close>, so an error of
  \<^verbatim>\<open>build_embed\<close> leaves the function; a failed delivery does not. The result is the
  payload handed to the webhook; the webhook's answer only selects the line printed.
\<close>

definition send_to_discord :: "string \<Rightarrow> event \<Rightarrow> string \<Rightarrow> diffs option \<Rightarrow> error + json" where
  "send_to_discord now event change_type diffs =
     bind_err (build_embed now event change_type diffs) (\<lambda>embed. Inr embed)"

section \<open>Fetching\<close>

text \<open>
  What \<^verbatim>\<open>requests.get\<close> gives: a \<^verbatim>\<open>RequestException\<close>, or a response with its status
  code and with what \<^verbatim>\<open>response.json()\<close> returns (\<open>None\<close> when it raises \<^verbatim>\<open>ValueError\<close>).
\<close>

datatype http_result = RequestException | Response int "json option"

text \<open>\<^verbatim>\<open>len(x)\<close> and the elements \<^verbatim>\<open>for ev in x\<close> visits.\<close>

fun py_len :: "json \<Rightarrow> error + nat" where
  "py_len (JStr s) = Inr (length s)"
| "py_len (JArr xs) = Inr (length xs)"
| "py_len (JObj d) = Inr (length d)"
| "py_len _ = Inl TypeError"

fun py_iter :: "json \<Rightarrow> error + json list" where
  "py_iter (JStr s) = Inr (map (\<lambda>c. JStr [c]) s)"
| "py_iter (JArr xs) = Inr xs"
| "py_iter (JObj d) = Inr (map (\<lambda>kv. JStr (fst kv)) d)"
| "py_iter _ = Inl TypeError"

text \<open>The dict comprehension \<^verbatim>\<open>{str(ev["id"]): ev for ev in ...}\<close>.\<close>

fun comprehension :: "json list \<Rightarrow> snapshot \<Rightarrow> error + snapshot" where
  "comprehension [] acc = Inr acc"
| "comprehension (JObj ev # rest) acc =
     bind_err (subscript ev ''id'') (\<lambda>i. comprehension rest (dict_set acc (py_str i) ev))"
| "comprehension (_ # rest) acc = Inl TypeError"

definition fetch_events :: "http_result \<Rightarrow> error + snapshot" where
  "fetch_events r =
     (case r of
        RequestException \<Rightarrow> Inr []
      | Response status_code body \<Rightarrow>
          if status_code \<noteq> 200 then Inr []
          else (case body of
                  None \<Rightarrow> Inr []
                | Some data \<Rightarrow>
                    (case data of
                       JObj d \<Rightarrow>
                         if \<not> truthy (get d ''error'') \<and> truthy (get d ''response'')
                         then bind_err (py_len (get d ''response'')) (\<lambda>_.
                              bind_err (py_iter (get d ''response'')) (\<lambda>evs.
                              comprehension evs []))
                         else Inr []
                     | _ \<Rightarrow> Inl AttributeError)))"

section \<open>The polling cycle\<close>

text \<open>
  One cycle takes the snapshot \<^verbatim>\<open>load_db\<close> returned and the outcome of the request, and
  gives the payloads sent to the webhook, in order, the snapshot handed to \<^verbatim>\<open>save_db\<close>
  if there is one, and the exception that ended the cycle if there is one. \<open>clock i\<close> is
  the time read for the \<open>i\<close>-th notification.
\<close>

record cycle_result =
  sent :: "json list"
  saved :: "snapshot option"
  raised :: "error option"

fun notify_all :: "(nat \<Rightarrow> string) \<Rightarrow> nat \<Rightarrow> change list \<Rightarrow> json list \<times> error option" where
  "notify_all clock i [] = ([], None)"
| "notify_all clock i ((change_type, event, diffs) # rest) =
     (case send_to_discord (clock i) event change_type diffs of
        Inl e \<Rightarrow> ([], Some e)
      | Inr payload \<Rightarrow>
          (case notify_all clock (Suc i) rest of (payloads, r) \<Rightarrow> (payload # payloads, r)))"

definition failed :: "error \<Rightarrow> cycle_result" where
  "failed e = \<lparr>sent = [], saved = None, raised = Some e\<rparr>"

text \<open>The body of the \<^verbatim>\<open>while True\<close> loop of \<^verbatim>\<open>main\<close>.\<close>

definition poll_cycle :: "(nat \<Rightarrow> string) \<Rightarrow> snapshot \<Rightarrow> http_result \<Rightarrow> cycle_result" where
  "poll_cycle clock old_db r =
     (case fetch_events r of
        Inl e \<Rightarrow> failed e
      | Inr new_db \<Rightarrow>
          (case detect_changes old_db new_db of
             Inl e \<Rightarrow> failed e
           | Inr changes \<Rightarrow>
               if changes \<noteq> [] then
                 (case notify_all clock 0 changes of
                    (payloads, None) \<Rightarrow> \<lparr>sent = payloads, saved = Some new_db, raised = None\<rparr>
                  | (payloads, Some e) \<Rightarrow> \<lparr>sent = payloads, saved = None, raised = Some e\<rparr>)
               else \<lparr>sent = [], saved = None, raised = None\<rparr>))"

text \<open>The start of \<^verbatim>\<open>main\<close>, before the loop.\<close>

definition bootstrap :: "(nat \<Rightarrow> string) \<Rightarrow> snapshot \<Rightarrow> http_result \<Rightarrow> cycle_result" where
  "bootstrap clock old_db r =
     (case fetch_events r of
        Inl e \<Rightarrow> failed e
      | Inr new_db \<Rightarrow>
          if old_db = [] then \<lparr>sent = [], saved = Some new_db, raised = None\<rparr>
          else (case detect_changes old_db new_db of
                  Inl e \<Rightarrow> failed e
                | Inr changes \<Rightarrow>
                    (case notify_all clock 0 changes of
                       (payloads, None) \<Rightarrow>
                         \<lparr>sent = payloads,
                          saved = (if changes \<noteq> [] then Some new_db else None),
                          raised = None\<rparr>
                     | (payloads, Some e) \<Rightarrow>
                         \<lparr>sent = payloads, saved = None, raised = Some e\<rparr>)))"


section \<open>The diff as the specification words it\<close>

text \<open>
  A field has changed when its two normalised values are unequal; the diff of two events
  has one entry per changed field, in the order of the tracked fields. \<open>log_error\<close> is the
  \<^verbatim>\<open>KeyError\<close> of the line printed for a changed description.
\<close>

definition changed :: "event \<Rightarrow> event \<Rightarrow> string \<Rightarrow> bool" where
  "changed old_event new_event key =
     py_ne (normalize key (get old_event key)) (normalize key (get new_event key))"

definition field_diffs :: "event \<Rightarrow> event \<Rightarrow> (string \<times> string) list \<Rightarrow> diffs" where
  "field_diffs old_event new_event fs =
     map (\<lambda>(key, label). (label, (normalize key (get old_event key), normalize key (get new_event key))))
       (filter (\<lambda>(key, label). changed old_event new_event key) fs)"

definition log_error :: "event \<Rightarrow> error option" where
  "log_error new_event =
     (if map_of new_event ''id'' = None then Some (KeyError ''id'')
      else if map_of new_event ''name'' = None then Some (KeyError ''name'')
      else None)"


text \<open>
  The records of one call of \<^verbatim>\<open>detect_changes\<close>: an item of the new snapshot gives a
  created record when its id is not in the old snapshot, an updated record when the diff
  with the old event is not empty, and no record otherwise; an item of the old snapshot
  gives a removed record when its id is not in the new snapshot.
\<close>

definition removed_records :: "snapshot \<Rightarrow> snapshot \<Rightarrow> change list" where
  "removed_records old_db new_db =
     map (\<lambda>(event_id, event). (''removed'', event, None))
       (filter (\<lambda>(event_id, event). \<not> has_key new_db event_id) old_db)"

definition new_record :: "snapshot \<Rightarrow> string \<times> event \<Rightarrow> change option" where
  "new_record old_db item =
     (case item of (event_id, event) \<Rightarrow>
        (case map_of old_db event_id of
           None \<Rightarrow> Some (''created'', event, None)
         | Some old_event \<Rightarrow>
             (case compare_events old_event event of
                Inr diffs \<Rightarrow> if diffs \<noteq> [] then Some (''updated'', event, Some diffs) else None
              | Inl e \<Rightarrow> None)))"

text \<open>The same records, each with the id of its item.\<close>

definition tag_new :: "snapshot \<Rightarrow> string \<times> event \<Rightarrow> (string \<times> change) option" where
  "tag_new old_db item = map_option (Pair (fst item)) (new_record old_db item)"

definition removed_ids :: "snapshot \<Rightarrow> snapshot \<Rightarrow> (string \<times> change) list" where
  "removed_ids old_db new_db =
     map (\<lambda>(event_id, event). (event_id, ''removed'', event, None))
       (filter (\<lambda>(event_id, event). \<not> has_key new_db event_id) old_db)"

text \<open>
  A fetch has failed when the request raised, the status is not 200, or the body could
  not be decoded.
\<close>

definition fetch_failed :: "http_result \<Rightarrow> bool" where
  "fetch_failed r =
     (case r of RequestException \<Rightarrow> True
      | Response status_code body \<Rightarrow> status_code \<noteq> 200 \<or> body = None)"

definition removed_record :: "string \<times> event \<Rightarrow> change" where
  "removed_record item = (''removed'', snd item, None)"

text \<open>
  Reading a payload: the fields of its first embed, and the value of the field with a
  given name.
\<close>

definition payload_fields :: "json \<Rightarrow> json list" where
  "payload_fields payload =
     (case subscript_json payload ''embeds'' of
        Inr (JArr (first # _)) \<Rightarrow>
          (case subscript_json first ''fields'' of Inr (JArr fs) \<Rightarrow> fs | _ \<Rightarrow> [])
      | _ \<Rightarrow> [])"

definition field_value :: "json \<Rightarrow> string \<Rightarrow> json option" where
  "field_value payload name =
     (case filter (\<lambda>f. subscript_json f ''name'' = Inr (JStr name)) (payload_fields payload) of
        [] \<Rightarrow> None
      | f # _ \<Rightarrow> (case subscript_json f ''value'' of Inr v \<Rightarrow> Some v | Inl _ \<Rightarrow> None))"

text \<open>An event with every key the notification reads, and a clock.\<close>

definition example_event :: event where
  "example_event =
     [(''id'', JInt 1),
      (''name'', JStr ''Convoy''),
      (''start_at'', JStr ''2024-01-01 10:00:00''),
      (''server'', JObj [(''name'', JStr ''Simulation 1'')]),
      (''departure'', JObj [(''city'', JStr ''Berlin''), (''location'', JStr ''Depot'')]),
      (''arrive'', JObj [(''city'', JStr ''Paris''), (''location'', JStr ''Port'')]),
      (''url'', JStr ''/events/1''),
      (''game'', JStr ''ETS2''),
      (''vtc'', JObj [(''name'', JStr ''ATM'')])]"

definition example_clock :: "nat \<Rightarrow> string" where
  "example_clock i = ''2024-01-01T00:00:00''"

text \<open>
  The text of a date and time in the format of the data model, \<^verbatim>\<open>YYYY-MM-DD HH:MM:SS\<close>,
  every field padded with zeros.
\<close>

definition pad2 :: "nat \<Rightarrow> string" where
  "pad2 n = [digit_char (n div 10), digit_char (n mod 10)]"

definition pad4 :: "nat \<Rightarrow> string" where
  "pad4 n = pad2 (n div 100) @ pad2 (n mod 100)"

definition ts_text :: "datetime \<Rightarrow> string" where
  "ts_text dt =
     pad4 (year dt) @ ''-'' @ pad2 (month dt) @ ''-'' @ pad2 (day dt) @ '' '' @
     pad2 (hour dt) @ '':'' @ pad2 (minute dt) @ '':'' @ pad2 (second dt)"

section \<open>The snapshot file\<close>

text \<open>
  \<^verbatim>\<open>json.dump(data, f, indent=2, ensure_ascii=False)\<close> writes the text built here:
  inside a string only the double quote, the backslash and the characters below 0x20 are
  escaped; a list or dict that is not empty puts every item on a line of its own, two
  spaces deeper than its bracket, items separated by a comma, a key and its value by
  a colon and a space.
\<close>

definition escape_char :: "char \<Rightarrow> string" where
  "escape_char c =
     (if c = CHR 0x22 then [CHR 0x5C, CHR 0x22]
      else if c = CHR 0x5C then [CHR 0x5C, CHR 0x5C]
      else if c = CHR 0x0A then [CHR 0x5C, CHR ''n'']
      else if c = CHR 0x0D then [CHR 0x5C, CHR ''r'']
      else if c = CHR 0x09 then [CHR 0x5C, CHR ''t'']
      else if c = CHR 0x08 then [CHR 0x5C, CHR ''b'']
      else if c = CHR 0x0C then [CHR 0x5C, CHR ''f'']
      else if (of_char c :: nat) < 32
        then [CHR 0x5C, CHR ''u'', CHR ''0'', CHR ''0'',
              hex_digit (of_char c div 16), hex_digit (of_char c mod 16)]
      else [c])"

definition encode_str :: "string \<Rightarrow> string" where
  "encode_str s = CHR 0x22 # concat (map escape_char s) @ [CHR 0x22]"

definition newline_indent :: "nat \<Rightarrow> string" where
  "newline_indent level = CHR 0x0A # replicate (2 * level) CHR '' ''"

fun encode :: "nat \<Rightarrow> json \<Rightarrow> string" where
  "encode level JNull = ''null''"
| "encode level (JBool b) = (if b then ''true'' else ''false'')"
| "encode level (JInt i) = str_int i"
| "encode level (JStr s) = encode_str s"
| "encode level (JArr xs) =
     (if xs = [] then ''[]''
      else ''['' @ newline_indent (Suc level)
           @ join ('','' @ newline_indent (Suc level)) (map (encode (Suc level)) xs)
           @ newline_indent level @ '']'')"
| "encode level (JObj d) =
     (if d = [] then ''{}''
      else ''{'' @ newline_indent (Suc level)
           @ join ('','' @ newline_indent (Suc level))
               (map (\<lambda>kv. encode_str (fst kv) @ '': '' @ encode (Suc level) (snd kv)) d)
           @ newline_indent level @ ''}'')"

definition json_dumps :: "json \<Rightarrow> string" where
  "json_dumps v = encode 0 v"

text \<open>
  \<^verbatim>\<open>json.load\<close> decodes a text as the scanner of the \<^verbatim>\<open>json\<close> module does: white space is
  blank, tab, line feed and carriage return; a string ends at the first double quote
  that is not escaped and may not hold a character below 0x20; a number is an optional
  minus sign and \<^verbatim>\<open>0\<close> or a run of digits that does not start with \<^verbatim>\<open>0\<close>; a dict keeps
  the place of the first and the value of the last occurrence of a key. \<open>None\<close> is a
  \<^verbatim>\<open>JSONDecodeError\<close>. Numbers with a fraction or an exponent, the constants \<^verbatim>\<open>NaN\<close> and
  \<^verbatim>\<open>Infinity\<close>, and \<^verbatim>\<open>\u\<close> escapes beyond \<^verbatim>\<open>\u007f\<close> denote values outside this model
  and are not decoded here.
\<close>

definition is_ws :: "char \<Rightarrow> bool" where
  "is_ws c = (c = CHR '' '' \<or> c = CHR 0x09 \<or> c = CHR 0x0A \<or> c = CHR 0x0D)"

definition skip_ws :: "string \<Rightarrow> string" where
  "skip_ws s = dropWhile is_ws s"

definition hex_val :: "char \<Rightarrow> nat option" where
  "hex_val c =
     (let n = (of_char c :: nat) in
      if 48 \<le> n \<and> n \<le> 57 then Some (n - 48)
      else if 97 \<le> n \<and> n \<le> 102 then Some (n - 87)
      else if 65 \<le> n \<and> n \<le> 70 then Some (n - 55)
      else None)"

definition unescape :: "char \<Rightarrow> char option" where
  "unescape c =
     (if c = CHR 0x22 then Some (CHR 0x22)
      else if c = CHR 0x5C then Some (CHR 0x5C)
      else if c = CHR ''/'' then Some (CHR ''/'')
      else if c = CHR ''b'' then Some (CHR 0x08)
      else if c = CHR ''f'' then Some (CHR 0x0C)
      else if c = CHR ''n'' then Some (CHR 0x0A)
      else if c = CHR ''r'' then Some (CHR 0x0D)
      else if c = CHR ''t'' then Some (CHR 0x09)
      else None)"

definition unicode_escape :: "char \<Rightarrow> char \<Rightarrow> char \<Rightarrow> char \<Rightarrow> char option" where
  "unicode_escape a b c d =
     (case (hex_val a, hex_val b, hex_val c, hex_val d) of
        (Some h3, Some h2, Some h1, Some h0) \<Rightarrow>
          (let code = 4096 * h3 + 256 * h2 + 16 * h1 + h0
           in if code < 128 then Some (char_of code) else None)
      | _ \<Rightarrow> None)"

text \<open>The characters of a string, from after its opening quote.\<close>

fun scanstring :: "string \<Rightarrow> (string \<times> string) option" where
  "scanstring [] = None"
| "scanstring (c # rest) =
     (if c = CHR 0x22 then Some ([], rest)
      else if c = CHR 0x5C then
        (case rest of
           [] \<Rightarrow> None
         | e # rest1 \<Rightarrow>
             if e = CHR ''u'' then
               (case rest1 of
                  a # b # c # d # rest2 \<Rightarrow>
                    (case unicode_escape a b c d of
                       None \<Rightarrow> None
                     | Some ch \<Rightarrow> map_option (\<lambda>(s, r). (ch # s, r)) (scanstring rest2))
                | _ \<Rightarrow> None)
             else
               (case unescape e of
                  None \<Rightarrow> None
                | Some ch \<Rightarrow> map_option (\<lambda>(s, r). (ch # s, r)) (scanstring rest1)))
      else if (of_char c :: nat) < 32 then None
      else map_option (\<lambda>(s, r). (c # s, r)) (scanstring rest))"

text \<open>A number: only integers are decoded.\<close>

definition scan_digits :: "string \<Rightarrow> (nat \<times> string) option" where
  "scan_digits s =
     (case s of
        [] \<Rightarrow> None
      | c # rest \<Rightarrow>
          if c = CHR ''0'' then Some (0, rest)
          else if is_digit c then Some (int_of_digits (takeWhile is_digit s), dropWhile is_digit s)
          else None)"

definition scan_number :: "string \<Rightarrow> (json \<times> string) option" where
  "scan_number s =
     (case (case s of
              [] \<Rightarrow> None
            | c # rest \<Rightarrow>
                if c = CHR ''-'' then map_option (\<lambda>(n, r). (- int n, r)) (scan_digits rest)
                else map_option (\<lambda>(n, r). (int n, r)) (scan_digits s)) of
        None \<Rightarrow> None
      | Some (i, r) \<Rightarrow>
          (case r of
             [] \<Rightarrow> Some (JInt i, r)
           | c # _ \<Rightarrow> if c = CHR ''.'' \<or> c = CHR ''e'' \<or> c = CHR ''E'' then None
                      else Some (JInt i, r)))"

text \<open>
  A value, the items of a list after its opening bracket, and the members of a dict
  after the opening quote of a key. The first argument bounds the number of nested calls;
  \<open>json_loads\<close> starts with the length of the text.
\<close>

fun scan_once :: "nat \<Rightarrow> string \<Rightarrow> (json \<times> string) option"
  and scan_array :: "nat \<Rightarrow> string \<Rightarrow> json list \<Rightarrow> (json \<times> string) option"
  and scan_object :: "nat \<Rightarrow> string \<Rightarrow> (string \<times> json) list \<Rightarrow> (json \<times> string) option"
where
  "scan_once 0 s = None"
| "scan_once (Suc n) s =
     (case s of
        [] \<Rightarrow> None
      | c # rest \<Rightarrow>
          if c = CHR 0x22 then map_option (\<lambda>(t, r). (JStr t, r)) (scanstring rest)
          else if c = CHR ''{'' then
            (case skip_ws rest of
               [] \<Rightarrow> None
             | c1 # rest1 \<Rightarrow>
                 if c1 = CHR ''}'' then Some (JObj [], rest1)
                 else if c1 = CHR 0x22 then scan_object n rest1 []
                 else None)
          else if c = CHR ''['' then
            (case skip_ws rest of
               [] \<Rightarrow> None
             | c1 # rest1 \<Rightarrow>
                 if c1 = CHR '']'' then Some (JArr [], rest1)
                 else scan_array n (c1 # rest1) [])
          else if take 4 s = ''null'' then Some (JNull, drop 4 s)
          else if take 4 s = ''true'' then Some (JBool True, drop 4 s)
          else if take 5 s = ''false'' then Some (JBool False, drop 5 s)
          else scan_number s)"
| "scan_array 0 s values = None"
| "scan_array (Suc n) s values =
     (case scan_once n s of
        None \<Rightarrow> None
      | Some (v, r) \<Rightarrow>
          (case skip_ws r of
             [] \<Rightarrow> None
           | c # rest \<Rightarrow>
               if c = CHR '']'' then Some (JArr (values @ [v]), rest)
               else if c = CHR '','' then scan_array n (skip_ws rest) (values @ [v])
               else None))"
| "scan_object 0 s pairs = None"
| "scan_object (Suc n) s pairs =
     (case scanstring s of
        None \<Rightarrow> None
      | Some (key, r) \<Rightarrow>
          (case skip_ws r of
             [] \<Rightarrow> None
           | c # rest \<Rightarrow>
               if c \<noteq> CHR '':'' then None
               else
                 (case scan_once n (skip_ws rest) of
                    None \<Rightarrow> None
                  | Some (v, r1) \<Rightarrow>
                      (case skip_ws r1 of
                         [] \<Rightarrow> None
                       | c1 # rest1 \<Rightarrow>
                           if c1 = CHR ''}'' then Some (JObj (dict_set pairs key v), rest1)
                           else if c1 = CHR '','' then
                             (case skip_ws rest1 of
                                [] \<Rightarrow> None
                              | c2 # rest2 \<Rightarrow>
                                  if c2 = CHR 0x22
                                  then scan_object n rest2 (dict_set pairs key v)
                                  else None)
                           else None))))"

definition json_loads :: "string \<Rightarrow> json option" where
  "json_loads s =
     (case scan_once (length s) (skip_ws s) of
        None \<Rightarrow> None
      | Some (v, r) \<Rightarrow> if skip_ws r = [] then Some v else None)"

text \<open>
  The file \<^verbatim>\<open>events_db.json\<close> is missing or has a text. \<^verbatim>\<open>save_db\<close> opens it for writing,
  which replaces what it held; \<^verbatim>\<open>load_db\<close> returns \<^verbatim>\<open>{}\<close> when the file is missing or
  cannot be decoded.
\<close>

datatype db_file = Missing | Content string

definition json_of_snapshot :: "snapshot \<Rightarrow> json" where
  "json_of_snapshot db = JObj (map (\<lambda>item. (fst item, JObj (snd item))) db)"

definition save_db :: "snapshot \<Rightarrow> db_file \<Rightarrow> db_file" where
  "save_db data file = Content (json_dumps (json_of_snapshot data))"

definition load_db :: "db_file \<Rightarrow> json" where
  "load_db file =
     (case file of
        Missing \<Rightarrow> JObj []
      | Content text \<Rightarrow> (case json_loads text of None \<Rightarrow> JObj [] | Some v \<Rightarrow> v))"

text \<open>The keys of every dict inside a value are distinct, as they are in a Python dict.\<close>

fun distinct_keys :: "json \<Rightarrow> bool" where
  "distinct_keys (JArr xs) = list_all distinct_keys xs"
| "distinct_keys (JObj d) = (distinct (map fst d) \<and> list_all (\<lambda>kv. distinct_keys (snd kv)) d)"
| "distinct_keys _ = True"

text \<open>What may follow a number in a text: nothing, or a character that cannot continue it.\<close>

definition number_end :: "string \<Rightarrow> bool" where
  "number_end rest =
     (case rest of [] \<Rightarrow> True
      | c # _ \<Rightarrow> \<not> is_digit c \<and> c \<noteq> CHR ''.'' \<and> c \<noteq> CHR ''e'' \<and> c \<noteq> CHR ''E'')"

section \<open>Properties\<close>

subsection \<open>Auxiliary facts\<close>

lemma bind_err_simps [simp]:
  "bind_err (Inl e) f = Inl e"
  "bind_err (Inr v) f = f v"
  by (simp_all add: bind_err_def)

lemma bind_err_eq_Inr: "bind_err r f = Inr y \<longleftrightarrow> (\<exists>v. r = Inr v \<and> f v = Inr y)"
  by (cases r) simp_all

lemma subscript_simps:
  "map_of d k = None \<Longrightarrow> subscript d k = Inl (KeyError k)"
  "map_of d k = Some v \<Longrightarrow> subscript d k = Inr v"
  by (simp_all add: subscript_def)

lemma dict_set_fresh: "k \<notin> fst ` set d \<Longrightarrow> dict_set d k v = d @ [(k, v)]"
  by (induction d) auto

lemma py_eq_refl: "py_eq v v"
proof (induction v)
  case (JArr xs)
  then show ?case by (simp add: list_all2_same)
next
  case (JObj a)
  have "py_eq (snd kv) (snd kv)" if "kv \<in> set a" for kv
    using JObj that by (cases kv) auto
  then show ?case by (auto simp: list_all_iff)
qed simp_all

lemma py_ne_same [simp]: "\<not> py_ne v v"
  by (simp add: py_ne_def py_eq_refl)

lemma check_field_other:
  "key \<noteq> ''description'' \<Longrightarrow>
   check_field old_event new_event key label ds =
     Inr (if changed old_event new_event key
          then dict_set ds label (normalize key (get old_event key), normalize key (get new_event key))
          else ds)"
  by (simp add: check_field_def changed_def)

lemma check_field_description:
  "check_field old_event new_event ''description'' label ds =
     (if changed old_event new_event ''description'' then
        (case log_error new_event of
           Some e \<Rightarrow> Inl e
         | None \<Rightarrow> Inr (dict_set ds label
             (normalize ''description'' (get old_event ''description''),
              normalize ''description'' (get new_event ''description''))))
      else Inr ds)"
  by (auto simp: check_field_def changed_def log_error_def subscript_def split: option.splits)

lemma field_diffs_Cons:
  "field_diffs o_ev n_ev ((key, label) # fs) =
     (if changed o_ev n_ev key
      then (label, (normalize key (get o_ev key), normalize key (get n_ev key))) # field_diffs o_ev n_ev fs
      else field_diffs o_ev n_ev fs)"
  by (simp add: field_diffs_def)

lemma field_diffs_Nil [simp]: "field_diffs o_ev n_ev [] = []"
  by (simp add: field_diffs_def)

lemma compare_loop_char:
  assumes "distinct (map snd fs)" and "snd ` set fs \<inter> fst ` set ds = {}"
  shows "compare_loop old_event new_event fs ds =
     (if ''description'' \<in> fst ` set fs \<and> changed old_event new_event ''description''
         \<and> log_error new_event \<noteq> None
      then Inl (the (log_error new_event))
      else Inr (ds @ field_diffs old_event new_event fs))"
  using assms
proof (induction fs arbitrary: ds)
  case Nil
  then show ?case by simp
next
  case (Cons f fs)
  obtain key label where f: "f = (key, label)" by (cases f)
  let ?v = "(normalize key (get old_event key), normalize key (get new_event key))"
  have fresh: "label \<notin> fst ` set ds" using Cons.prems f by auto
  have d: "distinct (map snd fs)" using Cons.prems by simp
  have disj1: "snd ` set fs \<inter> fst ` set ds = {}" using Cons.prems by auto
  have disj2: "snd ` set fs \<inter> fst ` set (ds @ [(label, ?v)]) = {}"
    using Cons.prems f by auto
  show ?case
  proof (cases "key = ''description''")
    case False
    then show ?thesis
      using Cons.IH[OF d disj1] Cons.IH[OF d disj2] fresh f
      by (auto simp: check_field_other dict_set_fresh field_diffs_Cons)
  next
    case True
    then show ?thesis
      using Cons.IH[OF d disj1] Cons.IH[OF d disj2] fresh f
      by (auto simp: check_field_description dict_set_fresh field_diffs_Cons
               split: option.splits)
  qed
qed

lemma compare_events_char:
  "compare_events old_event new_event =
     (if changed old_event new_event ''description'' \<and> log_error new_event \<noteq> None
      then Inl (the (log_error new_event))
      else Inr (field_diffs old_event new_event fields_to_check))"
proof -
  have "distinct (map snd fields_to_check)" by (simp add: fields_to_check_def)
  moreover have "''description'' \<in> fst ` set fields_to_check" by (simp add: fields_to_check_def)
  ultimately show ?thesis
    using compare_loop_char[of fields_to_check "[]" old_event new_event]
    by (simp add: compare_events_def)
qed


lemma normalize_description [simp]: "normalize ''description'' v = v"
  by (simp add: normalize_def)

lemma fields_to_check_distinct: "distinct (map snd fields_to_check)"
  by (simp add: fields_to_check_def)

subsection \<open>The description in the diff\<close>


subsection \<open>What the fetch returns\<close>

text \<open>
  Claim C3: for a transport error, a status other than success or a malformed body, a
  body that is valid JSON but not an object of the expected shape included,
  \<^verbatim>\<open>fetch_events\<close> returns an empty mapping and never raises. For a response with status
  200 whose body is the JSON list \<^verbatim>\<open>[]\<close>, the source reaches \<^verbatim>\<open>data.keys()\<close> and raises
  \<^verbatim>\<open>AttributeError\<close>.
\<close>

theorem fetch_events_json_list_raises:
  "fetch_events (Response 200 (Some (JArr []))) = Inl AttributeError"
  by (simp add: fetch_events_def)

subsection \<open>The two loops of the snapshot diff\<close>

lemma new_record_created:
  "map_of old_db k = None \<Longrightarrow> new_record old_db (k, e) = Some (''created'', e, None)"
  by (simp add: new_record_def)

lemma new_record_compared:
  "map_of old_db k = Some oe \<Longrightarrow> compare_events oe e = Inr ds \<Longrightarrow>
   new_record old_db (k, e) = (if ds \<noteq> [] then Some (''updated'', e, Some ds) else None)"
  by (simp add: new_record_def)

lemma has_key_iff: "has_key d k \<longleftrightarrow> k \<in> fst ` set d"
  by (simp add: has_key_def map_of_eq_None_iff)

lemma loop_old_char:
  "loop_old new_db items acc = acc @ removed_records items new_db"
  by (induction items arbitrary: acc) (auto simp: removed_records_def)

lemma map_filter_append: "List.map_filter f (xs @ ys) = List.map_filter f xs @ List.map_filter f ys"
  by (simp add: List.map_filter_def)

lemma map_filter_all_None: "(\<And>x. x \<in> set xs \<Longrightarrow> f x = None) \<Longrightarrow> List.map_filter f xs = []"
  by (induction xs) (auto simp: map_filter_simps)

lemma loop_new_char:
  "loop_new old_db items acc = Inr cs \<Longrightarrow> cs = acc @ List.map_filter (new_record old_db) items"
proof (induction items arbitrary: acc)
  case Nil
  then show ?case by simp
next
  case (Cons item items)
  obtain k e where item: "item = (k, e)" by (cases item)
  show ?case
  proof (cases "map_of old_db k")
    case None
    then have "loop_new old_db items (acc @ [(''created'', e, None)]) = Inr cs"
      using Cons.prems item by (simp add: has_key_def)
    from Cons.IH[OF this] None item show ?thesis
      by (simp add: map_filter_simps new_record_created)
  next
    case (Some oe)
    then obtain ds where ds: "compare_events oe e = Inr ds"
      using Cons.prems item by (cases "compare_events oe e") (auto simp: has_key_def subscript_def)
    show ?thesis
    proof (cases "ds = []")
      case True
      then have "loop_new old_db items acc = Inr cs"
        using Cons.prems item Some ds by (simp add: has_key_def subscript_def)
      from Cons.IH[OF this] Some ds True item show ?thesis
        by (simp add: map_filter_simps new_record_compared)
    next
      case False
      then have "loop_new old_db items (acc @ [(''updated'', e, Some ds)]) = Inr cs"
        using Cons.prems item Some ds by (simp add: has_key_def subscript_def)
      from Cons.IH[OF this] Some ds False item show ?thesis
        by (simp add: map_filter_simps new_record_compared)
    qed
  qed
qed

lemma loop_new_ok:
  assumes "\<And>k e oe. (k, e) \<in> set items \<Longrightarrow> map_of old_db k = Some oe \<Longrightarrow> \<exists>ds. compare_events oe e = Inr ds"
  shows "loop_new old_db items acc = Inr (acc @ List.map_filter (new_record old_db) items)"
  using assms
proof (induction items arbitrary: acc)
  case Nil
  then show ?case by simp
next
  case (Cons item items)
  obtain k e where item: "item = (k, e)" by (cases item)
  have IH: "loop_new old_db items acc' = Inr (acc' @ List.map_filter (new_record old_db) items)" for acc'
    using Cons.IH Cons.prems by (meson list.set_intros(2))
  show ?case
  proof (cases "map_of old_db k")
    case None
    then show ?thesis using IH item
      by (auto simp: has_key_def map_filter_simps new_record_created)
  next
    case (Some oe)
    then obtain ds where ds: "compare_events oe e = Inr ds"
      using Cons.prems(1)[of k e oe] item by auto
    show ?thesis
      using IH item Some ds
      by (cases "ds = []") (auto simp: has_key_def subscript_def map_filter_simps new_record_compared)
  qed
qed

lemma detect_changes_char:
  "detect_changes old_db new_db = Inr changes \<Longrightarrow>
   changes = List.map_filter (new_record old_db) new_db @ removed_records old_db new_db"
  by (auto simp: detect_changes_def bind_err_eq_Inr loop_old_char dest: loop_new_char)

lemma compare_events_same_fields:
  assumes "\<And>key. key \<in> fst ` set fields_to_check \<Longrightarrow> get old_event key = get new_event key"
  shows "compare_events old_event new_event = Inr []"
proof -
  have nc: "\<not> changed old_event new_event key" if "key \<in> fst ` set fields_to_check" for key
    using assms[OF that] by (simp add: changed_def)
  have "''description'' \<in> fst ` set fields_to_check" by (simp add: fields_to_check_def)
  then have "\<not> changed old_event new_event ''description''" by (rule nc)
  moreover have "field_diffs old_event new_event fields_to_check = []"
    using nc by (force simp: field_diffs_def filter_empty_conv)
  ultimately show ?thesis by (simp add: compare_events_char)
qed

subsection \<open>Equal snapshots\<close>

text \<open>
  Claim C4: for two snapshots that are equal by id and by the values of all tracked
  fields, \<^verbatim>\<open>detect_changes(old, new)\<close> returns an empty sequence of change records. The
  two snapshots have the same ids, in any order, and under each id two events with the
  same value for every tracked key; other keys may differ.
\<close>

theorem detect_changes_equal_snapshots:
  assumes "set (map fst old_db) = set (map fst new_db)"
      and "\<forall>(event_id, event) \<in> set new_db. \<forall>old_event. map_of old_db event_id = Some old_event \<longrightarrow>
             (\<forall>(key, label) \<in> set fields_to_check. get old_event key = get event key)"
  shows "detect_changes old_db new_db = Inr []"
proof -
  have cmp: "compare_events oe e = Inr []" if "(k, e) \<in> set new_db" "map_of old_db k = Some oe" for k e oe
  proof (rule compare_events_same_fields)
    fix key assume "key \<in> fst ` set fields_to_check"
    then show "get oe key = get e key" using assms(2) that by fastforce
  qed
  have "new_record old_db item = None" if "item \<in> set new_db" for item
  proof -
    obtain k e where item: "item = (k, e)" by (cases item)
    then have "k \<in> fst ` set old_db" using assms(1) that by force
    then obtain oe where oe: "map_of old_db k = Some oe"
      by (metis has_key_def has_key_iff not_None_eq)
    then show ?thesis using cmp[of k e oe] that item by (simp add: new_record_compared)
  qed
  then have mf: "List.map_filter (new_record old_db) new_db = []"
    by (rule map_filter_all_None)
  have ln: "loop_new old_db new_db [] = Inr ([] @ List.map_filter (new_record old_db) new_db)"
    by (rule loop_new_ok) (use cmp in blast)
  have rm: "removed_records old_db new_db = []"
    using assms(1) by (force simp: removed_records_def filter_empty_conv has_key_iff)
  show ?thesis using ln mf rm by (simp add: detect_changes_def loop_old_char)
qed

theorem detect_changes_equal_snapshots_witness:
  "detect_changes
     [(''1'', [(''id'', JInt 1), (''name'', JStr ''Convoy''), (''url'', JStr ''/a'')]),
      (''2'', [(''id'', JInt 2), (''name'', JStr ''Tour'')])]
     [(''2'', [(''id'', JInt 2), (''name'', JStr ''Tour'')]),
      (''1'', [(''name'', JStr ''Convoy''), (''id'', JInt 1), (''url'', JStr ''/b'')])]
   = Inr []"
  by (rule detect_changes_equal_snapshots) (auto simp: fields_to_check_def get_def)

subsection \<open>The loops that keep the ids\<close>

lemma loop_old_ids_char:
  "loop_old_ids new_db items acc = acc @ removed_ids items new_db"
  by (induction items arbitrary: acc) (auto simp: removed_ids_def)

lemma tag_new_simps:
  "new_record old_db (k, e) = None \<Longrightarrow> tag_new old_db (k, e) = None"
  "new_record old_db (k, e) = Some c \<Longrightarrow> tag_new old_db (k, e) = Some (k, c)"
  by (simp_all add: tag_new_def)

lemma loop_new_ids_erase:
  "map_sum id (map snd) (loop_new_ids old_db items acc) = loop_new old_db items (map snd acc)"
proof (induction items arbitrary: acc)
  case Nil
  then show ?case by simp
next
  case (Cons item items)
  obtain k e where item: "item = (k, e)" by (cases item)
  show ?case
  proof (cases "map_of old_db k")
    case None
    then show ?thesis using Cons.IH[of "acc @ [(k, ''created'', e, None)]"] item
      by (simp add: has_key_def)
  next
    case (Some oe)
    show ?thesis
    proof (cases "compare_events oe e")
      case (Inl err)
      then show ?thesis using Some item by (simp add: has_key_def subscript_def)
    next
      case (Inr ds)
      then show ?thesis
        using Some item Cons.IH[of acc] Cons.IH[of "acc @ [(k, ''updated'', e, Some ds)]"]
        by (simp add: has_key_def subscript_def)
    qed
  qed
qed

lemma loop_old_ids_erase:
  "map snd (loop_old_ids new_db items acc) = loop_old new_db items (map snd acc)"
  by (induction items arbitrary: acc) auto

lemma detect_changes_ids_erase:
  "map_sum id (map snd) (detect_changes_ids old_db new_db) = detect_changes old_db new_db"
proof (cases "loop_new_ids old_db new_db []")
  case (Inl e)
  then show ?thesis using loop_new_ids_erase[of old_db new_db "[]", symmetric]
    by (simp add: detect_changes_ids_def detect_changes_def)
next
  case (Inr cs)
  then show ?thesis using loop_new_ids_erase[of old_db new_db "[]", symmetric]
    by (simp add: detect_changes_ids_def detect_changes_def loop_old_ids_erase)
qed

lemma loop_new_ids_char:
  "loop_new_ids old_db items acc = Inr cs \<Longrightarrow> cs = acc @ List.map_filter (tag_new old_db) items"
proof (induction items arbitrary: acc)
  case Nil
  then show ?case by simp
next
  case (Cons item items)
  obtain k e where item: "item = (k, e)" by (cases item)
  show ?case
  proof (cases "map_of old_db k")
    case None
    then have "loop_new_ids old_db items (acc @ [(k, ''created'', e, None)]) = Inr cs"
      using Cons.prems item by (simp add: has_key_def)
    from Cons.IH[OF this] None item show ?thesis
      by (simp add: map_filter_simps new_record_created tag_new_simps)
  next
    case (Some oe)
    then obtain ds where ds: "compare_events oe e = Inr ds"
      using Cons.prems item by (cases "compare_events oe e") (auto simp: has_key_def subscript_def)
    show ?thesis
    proof (cases "ds = []")
      case True
      then have "loop_new_ids old_db items acc = Inr cs"
        using Cons.prems item Some ds by (simp add: has_key_def subscript_def)
      from Cons.IH[OF this] Some ds True item show ?thesis
        by (simp add: map_filter_simps new_record_compared tag_new_simps)
    next
      case False
      then have "loop_new_ids old_db items (acc @ [(k, ''updated'', e, Some ds)]) = Inr cs"
        using Cons.prems item Some ds by (simp add: has_key_def subscript_def)
      from Cons.IH[OF this] Some ds False item show ?thesis
        by (simp add: map_filter_simps new_record_compared tag_new_simps)
    qed
  qed
qed

lemma detect_changes_ids_char:
  "detect_changes_ids old_db new_db = Inr cs \<Longrightarrow>
   cs = List.map_filter (tag_new old_db) new_db @ removed_ids old_db new_db"
  by (auto simp: detect_changes_ids_def bind_err_eq_Inr loop_old_ids_char dest: loop_new_ids_char)

lemma tag_new_Some:
  assumes "tag_new old_db item = Some (k, t, e, d)"
  shows "item = (k, e) \<and>
         (map_of old_db k = None \<and> t = ''created'' \<or> map_of old_db k \<noteq> None \<and> t = ''updated'')"
  using assms
  by (cases item)
     (auto simp: tag_new_def new_record_def split: option.splits sum.splits if_splits)

lemma map_filter_set: "set (List.map_filter f xs) = {y. \<exists>x \<in> set xs. f x = Some y}"
  by (induction xs) (auto simp: map_filter_simps split: option.splits)

lemma map_fst_tag_new:
  "map fst (List.map_filter (tag_new old_db) items) =
   map fst (filter (\<lambda>item. new_record old_db item \<noteq> None) items)"
proof (induction items)
  case Nil
  then show ?case by simp
next
  case (Cons item items)
  then show ?case
    by (cases item; cases "new_record old_db item") (auto simp: map_filter_simps tag_new_simps)
qed

lemma distinct_map_fst_filter: "distinct (map fst xs) \<Longrightarrow> distinct (map fst (filter P xs))"
  by (induction xs) (auto simp: image_iff)

subsection \<open>An inserted event\<close>

lemma compare_events_same: "compare_events e e = Inr []"
  by (rule compare_events_same_fields) simp

lemma new_record_same:
  "map_of old_db k = Some e \<Longrightarrow> new_record old_db (k, e) = None"
  by (simp add: new_record_compared[OF _ compare_events_same])

text \<open>
  Claim C5: for an old snapshot and the new snapshot obtained from it by inserting an
  event under an id that the old one does not have, \<^verbatim>\<open>detect_changes(old, new)\<close> contains
  exactly one Created record for that id and no other record referencing that id. The
  event may be inserted at any place of the iteration order; the call then returns the one
  Created record and nothing else.
\<close>

theorem detect_changes_inserted:
  assumes "distinct (map fst old_db)"
      and "\<not> has_key old_db event_id"
      and "old_db = xs @ ys"
      and "new_db = xs @ (event_id, event) # ys"
  shows "detect_changes_ids old_db new_db = Inr [(event_id, ''created'', event, None)] \<and>
         detect_changes old_db new_db = Inr [(''created'', event, None)]"
proof -
  have same: "map_of old_db k = Some e" if "(k, e) \<in> set xs \<or> (k, e) \<in> set ys" for k e
  proof -
    have "(k, e) \<in> set old_db" using assms(3) that by auto
    then show ?thesis by (simp add: map_of_is_SomeI[OF assms(1)])
  qed
  have none: "new_record old_db item = None" if "item \<in> set xs \<or> item \<in> set ys" for item
    using same[of "fst item" "snd item"] that new_record_same[of old_db "fst item" "snd item"]
    by auto
  have mx: "List.map_filter (new_record old_db) xs = []"
    by (rule map_filter_all_None) (use none in blast)
  have my: "List.map_filter (new_record old_db) ys = []"
    by (rule map_filter_all_None) (use none in blast)
  have cr: "new_record old_db (event_id, event) = Some (''created'', event, None)"
    using assms(2) by (simp add: new_record_created has_key_def)
  have ok: "\<exists>ds. compare_events oe e = Inr ds"
    if "(k, e) \<in> set new_db" "map_of old_db k = Some oe" for k e oe
  proof -
    have "k \<noteq> event_id" using that(2) assms(2) by (auto simp: has_key_def)
    then have "(k, e) \<in> set xs \<or> (k, e) \<in> set ys" using that(1) assms(4) by auto
    then have "oe = e" using same that(2) by fastforce
    then show ?thesis by (simp add: compare_events_same)
  qed
  have ln: "loop_new old_db new_db [] = Inr ([] @ List.map_filter (new_record old_db) new_db)"
    by (rule loop_new_ok) (use ok in blast)
  have rm: "removed_records old_db new_db = []"
    using assms(3,4) by (force simp: removed_records_def filter_empty_conv has_key_iff)
  have plain: "detect_changes old_db new_db = Inr [(''created'', event, None)]"
    using ln rm mx my cr assms(4)
    by (simp add: detect_changes_def loop_old_char map_filter_append)
  obtain cs where cs: "detect_changes_ids old_db new_db = Inr cs"
    using plain detect_changes_ids_erase[of old_db new_db]
    by (cases "detect_changes_ids old_db new_db") auto
  have rmi: "removed_ids old_db new_db = []"
    using assms(3,4) by (force simp: removed_ids_def filter_empty_conv has_key_iff)
  have tx: "List.map_filter (tag_new old_db) xs = []"
    by (rule map_filter_all_None) (use none in \<open>auto simp: tag_new_def\<close>)
  have ty: "List.map_filter (tag_new old_db) ys = []"
    by (rule map_filter_all_None) (use none in \<open>auto simp: tag_new_def\<close>)
  have "cs = [(event_id, ''created'', event, None)]"
    using detect_changes_ids_char[OF cs] rmi tx ty cr assms(4)
    by (simp add: map_filter_append tag_new_simps)
  with cs plain show ?thesis by simp
qed

theorem detect_changes_inserted_witness:
  "detect_changes_ids
     [(''1'', [(''name'', JStr ''Convoy'')]), (''3'', [(''name'', JStr ''Tour'')])]
     [(''1'', [(''name'', JStr ''Convoy'')]), (''2'', [(''name'', JStr ''Rally'')]),
      (''3'', [(''name'', JStr ''Tour'')])]
     = Inr [(''2'', ''created'', [(''name'', JStr ''Rally'')], None)] \<and>
   detect_changes
     [(''1'', [(''name'', JStr ''Convoy'')]), (''3'', [(''name'', JStr ''Tour'')])]
     [(''1'', [(''name'', JStr ''Convoy'')]), (''2'', [(''name'', JStr ''Rally'')]),
      (''3'', [(''name'', JStr ''Tour'')])]
     = Inr [(''created'', [(''name'', JStr ''Rally'')], None)]"
  by (rule detect_changes_inserted[where xs = "[(''1'', [(''name'', JStr ''Convoy'')])]"
        and ys = "[(''3'', [(''name'', JStr ''Tour'')])]"])
     (simp_all add: has_key_def)

subsection \<open>The order of the records\<close>

text \<open>
  Claim C6: the sequence returned by \<^verbatim>\<open>detect_changes\<close> lists all Created and Updated
  records first, in the iteration order of the new snapshot, followed by all Removed
  records, in the iteration order of the old snapshot.
\<close>

theorem detect_changes_order:
  assumes "detect_changes old_db new_db = Inr changes"
  shows "changes = List.map_filter (new_record old_db) new_db @ removed_records old_db new_db \<and>
         map (fst \<circ> snd) (List.map_filter (new_record old_db) new_db) =
           map snd (filter (\<lambda>item. new_record old_db item \<noteq> None) new_db) \<and>
         map (fst \<circ> snd) (removed_records old_db new_db) =
           map snd (filter (\<lambda>(event_id, event). \<not> has_key new_db event_id) old_db) \<and>
         (\<forall>c \<in> set (List.map_filter (new_record old_db) new_db).
            fst c = ''created'' \<or> fst c = ''updated'') \<and>
         (\<forall>c \<in> set (removed_records old_db new_db). fst c = ''removed'')"
proof -
  have a: "changes = List.map_filter (new_record old_db) new_db @ removed_records old_db new_db"
    using assms by (rule detect_changes_char)
  have b: "map (fst \<circ> snd) (List.map_filter (new_record old_db) items) =
           map snd (filter (\<lambda>item. new_record old_db item \<noteq> None) items)" for items
  proof (induction items)
    case Nil
    then show ?case by simp
  next
    case (Cons item items)
    then show ?case
      by (cases item)
         (auto simp: new_record_def split: option.splits sum.splits if_splits)
  qed
  have c: "map (fst \<circ> snd) (removed_records old_db new_db) =
           map snd (filter (\<lambda>(event_id, event). \<not> has_key new_db event_id) old_db)"
    by (simp add: removed_records_def case_prod_beta comp_def)
  have d: "\<forall>c \<in> set (List.map_filter (new_record old_db) new_db). fst c = ''created'' \<or> fst c = ''updated''"
    by (auto simp: map_filter_set new_record_def split: option.splits sum.splits if_splits)
  have e: "\<forall>c \<in> set (removed_records old_db new_db). fst c = ''removed''"
    by (auto simp: removed_records_def)
  from a b c d e show ?thesis by blast
qed

theorem detect_changes_order_witness:
  "detect_changes
     [(''1'', [(''name'', JStr ''Convoy'')]), (''2'', [(''name'', JStr ''Tour'')])]
     [(''3'', [(''name'', JStr ''Rally'')]), (''1'', [(''name'', JStr ''Parade'')])]
   = Inr [(''created'', [(''name'', JStr ''Rally'')], None),
          (''updated'', [(''name'', JStr ''Parade'')],
             Some [(''Name'', (JStr ''Convoy'', JStr ''Parade''))]),
          (''removed'', [(''name'', JStr ''Tour'')], None)] \<and>
   [(''created'', [(''name'', JStr ''Rally'')], None),
    (''updated'', [(''name'', JStr ''Parade'')],
       Some [(''Name'', (JStr ''Convoy'', JStr ''Parade''))]),
    (''removed'', [(''name'', JStr ''Tour'')], None)]
   = List.map_filter
       (new_record [(''1'', [(''name'', JStr ''Convoy'')]), (''2'', [(''name'', JStr ''Tour'')])])
       [(''3'', [(''name'', JStr ''Rally'')]), (''1'', [(''name'', JStr ''Parade'')])]
     @ removed_records
         [(''1'', [(''name'', JStr ''Convoy'')]), (''2'', [(''name'', JStr ''Tour'')])]
         [(''3'', [(''name'', JStr ''Rally'')]), (''1'', [(''name'', JStr ''Parade'')])]"
proof -
  have h: "detect_changes
     [(''1'', [(''name'', JStr ''Convoy'')]), (''2'', [(''name'', JStr ''Tour'')])]
     [(''3'', [(''name'', JStr ''Rally'')]), (''1'', [(''name'', JStr ''Parade'')])]
   = Inr [(''created'', [(''name'', JStr ''Rally'')], None),
          (''updated'', [(''name'', JStr ''Parade'')],
             Some [(''Name'', (JStr ''Convoy'', JStr ''Parade''))]),
          (''removed'', [(''name'', JStr ''Tour'')], None)]"
    by (simp add: detect_changes_def has_key_def subscript_def compare_events_def
          fields_to_check_def check_field_def normalize_def get_def py_ne_def)
  from detect_changes_order[OF h] h show ?thesis by blast
qed

subsection \<open>One record per id\<close>

text \<open>
  Claim C8: each event id appears in at most one change record of the output of
  \<^verbatim>\<open>detect_changes\<close>; an id present in both snapshots can only yield an Updated record,
  an id only in the new snapshot only a Created record, and an id only in the old snapshot
  only a Removed record. The ids are the keys of the two dicts, which are distinct within
  a dict; \<open>detect_changes_ids\<close> returns the records of \<open>detect_changes\<close>, each with its id.
\<close>

theorem detect_changes_one_record_per_id:
  assumes "distinct (map fst old_db)"
      and "distinct (map fst new_db)"
      and "detect_changes_ids old_db new_db = Inr cs"
  shows "detect_changes old_db new_db = Inr (map snd cs) \<and>
         distinct (map fst cs) \<and>
         (\<forall>(event_id, change_type, event, diffs) \<in> set cs.
            (has_key old_db event_id \<and> has_key new_db event_id \<longrightarrow> change_type = ''updated'') \<and>
            (\<not> has_key old_db event_id \<longrightarrow> change_type = ''created'' \<and> has_key new_db event_id) \<and>
            (\<not> has_key new_db event_id \<longrightarrow> change_type = ''removed'' \<and> has_key old_db event_id))"
proof -
  let ?cu = "List.map_filter (tag_new old_db) new_db"
  let ?rm = "removed_ids old_db new_db"
  have cs: "cs = ?cu @ ?rm" using assms(3) by (rule detect_changes_ids_char)
  have plain: "detect_changes old_db new_db = Inr (map snd cs)"
    using detect_changes_ids_erase[of old_db new_db] assms(3) by simp
  have kcu: "map fst ?cu = map fst (filter (\<lambda>item. new_record old_db item \<noteq> None) new_db)"
    by (rule map_fst_tag_new)
  have krm: "map fst ?rm = map fst (filter (\<lambda>(k, e). \<not> has_key new_db k) old_db)"
    by (simp add: removed_ids_def case_prod_beta comp_def)
  have d1: "distinct (map fst ?cu)" unfolding kcu using assms(2) by (rule distinct_map_fst_filter)
  have d2: "distinct (map fst ?rm)" unfolding krm using assms(1) by (rule distinct_map_fst_filter)
  have s1: "set (map fst ?cu) \<subseteq> fst ` set new_db" unfolding kcu by auto
  have s2: "set (map fst ?rm) \<inter> fst ` set new_db = {}" unfolding krm by (force simp: has_key_iff)
  have dist: "distinct (map fst cs)" using d1 d2 s1 s2 cs by auto
  have kinds_cu: "has_key new_db k \<and>
      (has_key old_db k \<and> t = ''updated'' \<or> \<not> has_key old_db k \<and> t = ''created'')"
    if "(k, t, e, d) \<in> set ?cu" for k t e d
  proof -
    from that obtain item where "item \<in> set new_db" "tag_new old_db item = Some (k, t, e, d)"
      by (auto simp: map_filter_set)
    note it = this
    from tag_new_Some[OF it(2)] it(1) have "(k, e) \<in> set new_db" by simp
    then have "has_key new_db k" unfolding has_key_iff by force
    with tag_new_Some[OF it(2)] show ?thesis by (auto simp: has_key_def)
  qed
  have kinds_rm: "\<not> has_key new_db k \<and> has_key old_db k \<and> t = ''removed''"
    if "(k, t, e, d) \<in> set ?rm" for k t e d
    using that by (force simp: removed_ids_def has_key_iff)
  have kinds: "\<forall>(event_id, change_type, event, diffs) \<in> set cs.
            (has_key old_db event_id \<and> has_key new_db event_id \<longrightarrow> change_type = ''updated'') \<and>
            (\<not> has_key old_db event_id \<longrightarrow> change_type = ''created'' \<and> has_key new_db event_id) \<and>
            (\<not> has_key new_db event_id \<longrightarrow> change_type = ''removed'' \<and> has_key old_db event_id)"
    using kinds_cu kinds_rm cs by fastforce
  from plain dist kinds show ?thesis by blast
qed
theorem detect_changes_one_record_per_id_witness:
  "detect_changes_ids
     [(''1'', [(''name'', JStr ''Convoy'')]), (''2'', [(''name'', JStr ''Tour'')])]
     [(''3'', [(''name'', JStr ''Rally'')]), (''1'', [(''name'', JStr ''Parade'')])]
   = Inr [(''3'', ''created'', [(''name'', JStr ''Rally'')], None),
          (''1'', ''updated'', [(''name'', JStr ''Parade'')],
             Some [(''Name'', (JStr ''Convoy'', JStr ''Parade''))]),
          (''2'', ''removed'', [(''name'', JStr ''Tour'')], None)] \<and>
   detect_changes
     [(''1'', [(''name'', JStr ''Convoy'')]), (''2'', [(''name'', JStr ''Tour'')])]
     [(''3'', [(''name'', JStr ''Rally'')]), (''1'', [(''name'', JStr ''Parade'')])]
   = Inr (map snd
       [(''3'', ''created'', [(''name'', JStr ''Rally'')], None),
        (''1'', ''updated'', [(''name'', JStr ''Parade'')],
           Some [(''Name'', (JStr ''Convoy'', JStr ''Parade''))]),
        (''2'', ''removed'', [(''name'', JStr ''Tour'')], None)])"
proof -
  have h: "detect_changes_ids
     [(''1'', [(''name'', JStr ''Convoy'')]), (''2'', [(''name'', JStr ''Tour'')])]
     [(''3'', [(''name'', JStr ''Rally'')]), (''1'', [(''name'', JStr ''Parade'')])]
   = Inr [(''3'', ''created'', [(''name'', JStr ''Rally'')], None),
          (''1'', ''updated'', [(''name'', JStr ''Parade'')],
             Some [(''Name'', (JStr ''Convoy'', JStr ''Parade''))]),
          (''2'', ''removed'', [(''name'', JStr ''Tour'')], None)]"
    by (simp add: detect_changes_ids_def has_key_def subscript_def compare_events_def
          fields_to_check_def check_field_def normalize_def get_def py_ne_def)
  have d1: "distinct (map fst [(''1'', [(''name'', JStr ''Convoy'')]), (''2'', [(''name'', JStr ''Tour'')])])"
    by simp
  have d2: "distinct (map fst [(''3'', [(''name'', JStr ''Rally'')]), (''1'', [(''name'', JStr ''Parade'')])])"
    by simp
  from detect_changes_one_record_per_id[OF d1 d2 h] h show ?thesis by blast
qed

subsection \<open>Evaluating the examples\<close>

lemma digit_char_simps:
  "digit_char 0 = CHR ''0''" "digit_char 1 = CHR ''1''" "digit_char 2 = CHR ''2''"
  "digit_char 3 = CHR ''3''" "digit_char 4 = CHR ''4''" "digit_char 5 = CHR ''5''"
  "digit_char 6 = CHR ''6''" "digit_char 7 = CHR ''7''" "digit_char 8 = CHR ''8''"
  "digit_char 9 = CHR ''9''" "digit_char (Suc 0) = CHR ''1''"
  by code_simp+

lemmas strptime_eval = strptime_def is_digit_def in_range_def is_space_def int_of_digits_def
  digit_val_def valid_datetime_def days_in_month_def is_leap_def

lemmas timestamp_eval = timestamp_def toordinal_def days_before_year_def days_before_month_def
  days_in_month_def is_leap_def str_int_def dec.simps digit_char_simps

lemma strptime_example: "strptime ''2024-01-01 10:00:00'' =
  Some \<lparr>year = 2024, month = 1, day = 1, hour = 10, minute = 0, second = 0\<rparr>"
  by (simp add: strptime_eval)

lemma discord_timestamp_example:
  "discord_timestamp (JStr ''2024-01-01 10:00:00'') ''F'' = JStr ''<t:1704103200:F>''"
  by (simp add: discord_timestamp_def strptime_example timestamp_eval)

lemma build_embed_example:
  "\<not> isl (build_embed now example_event change_type None)"
  by (simp add: build_embed_def example_event_def subscript_def get_def discord_timestamp_example)

lemma build_embed_example_meetup:
  "field_value (projr (build_embed now example_event change_type None)) (sym_clock @ '' Meetup Time'')
     = Some (JStr ''Not specified'')"
  by (simp add: build_embed_def example_event_def subscript_def get_def discord_timestamp_example
      field_value_def payload_fields_def embed_field_def sym_clock_def sym_calendar_def)

subsection \<open>A notification needs the start time\<close>

lemma build_embed_no_start_at:
  "map_of event ''start_at'' = None \<Longrightarrow>
   build_embed now event change_type diffs = Inl (KeyError ''start_at'')"
  by (simp add: build_embed_def subscript_def)

lemma field_names_differ:
  "sym_calendar @ '' Date'' \<noteq> sym_clock @ '' Meetup Time''"
  by (simp add: sym_calendar_def sym_clock_def)

lemma build_embed_fields:
  assumes "build_embed now event change_type diffs = Inr payload"
  shows "\<exists>date rest.
           payload_fields payload =
             embed_field (sym_calendar @ '' Date'') date False #
             embed_field (sym_clock @ '' Meetup Time'')
               (if truthy (get event ''meetup_at'')
                then py_str (discord_timestamp (get event ''meetup_at'') ''F'')
                else ''Not specified'') True # rest"
  using assms unfolding build_embed_def Let_def bind_err_eq_Inr
  apply (elim exE conjE)
  apply (cases diffs)
   apply (auto simp: payload_fields_def subscript_def)
  done

lemma build_embed_meetup_absent:
  assumes "map_of event ''meetup_at'' = None"
      and "build_embed now event change_type diffs = Inr payload"
  shows "field_value payload (sym_clock @ '' Meetup Time'') = Some (JStr ''Not specified'')"
proof -
  from build_embed_fields[OF assms(2)] obtain date rest where
    "payload_fields payload =
       embed_field (sym_calendar @ '' Date'') date False #
       embed_field (sym_clock @ '' Meetup Time'')
         (if truthy (get event ''meetup_at'')
          then py_str (discord_timestamp (get event ''meetup_at'') ''F'')
          else ''Not specified'') True # rest"
    by blast
  moreover have "get event ''meetup_at'' = JNull" using assms(1) by (simp add: get_def)
  ultimately show ?thesis
    using field_names_differ
    by (simp add: field_value_def embed_field_def subscript_def)
qed


text \<open>
  Claim C9: for every event record that lacks the \<^verbatim>\<open>start_at\<close> key, building or sending
  its notification raises an error, because \<^verbatim>\<open>build_embed\<close> indexes \<^verbatim>\<open>start_at\<close>
  unconditionally for the event date, even though the absence of \<^verbatim>\<open>meetup_at\<close> is rendered
  as "Not specified"; notification is not total over records with optional timestamps.
  The error is \<^verbatim>\<open>KeyError('start_at')\<close>, it leaves \<^verbatim>\<open>send_to_discord\<close> and stops the batch
  of notifications at this record; and every payload that \<^verbatim>\<open>build_embed\<close> returns for an
  event without \<^verbatim>\<open>meetup_at\<close> has the meetup time "Not specified".
\<close>

theorem build_embed_needs_start_at:
  assumes "map_of event ''start_at'' = None"
  shows "build_embed now event change_type diffs = Inl (KeyError ''start_at'') \<and>
         send_to_discord now event change_type diffs = Inl (KeyError ''start_at'') \<and>
         notify_all clock i ((change_type, event, diffs) # rest) = ([], Some (KeyError ''start_at'')) \<and>
         (map_of other ''meetup_at'' = None \<and>
          build_embed now other change_type diffs = Inr payload \<longrightarrow>
            field_value payload (sym_clock @ '' Meetup Time'') = Some (JStr ''Not specified''))"
  using assms build_embed_meetup_absent[of other now change_type diffs payload]
  by (simp add: build_embed_no_start_at send_to_discord_def)

theorem build_embed_needs_start_at_witness:
  "build_embed ''2024-01-01T00:00:00'' [(''id'', JInt 1), (''name'', JStr ''Convoy'')] ''created'' None
     = Inl (KeyError ''start_at'') \<and>
   map_of example_event ''meetup_at'' = None \<and>
   \<not> isl (build_embed ''2024-01-01T00:00:00'' example_event ''created'' None) \<and>
   field_value (projr (build_embed ''2024-01-01T00:00:00'' example_event ''created'' None))
     (sym_clock @ '' Meetup Time'') = Some (JStr ''Not specified'')"
proof -
  have h: "map_of [(''id'', JInt 1), (''name'', JStr ''Convoy'')] ''start_at'' = None"
    by simp
  have m: "map_of example_event ''meetup_at'' = None"
    by (simp add: example_event_def)
  have r: "\<not> isl (build_embed ''2024-01-01T00:00:00'' example_event ''created'' None)"
    by (rule build_embed_example)
  then have p: "build_embed ''2024-01-01T00:00:00'' example_event ''created'' None
      = Inr (projr (build_embed ''2024-01-01T00:00:00'' example_event ''created'' None))"
    by (cases "build_embed ''2024-01-01T00:00:00'' example_event ''created'' None") simp_all
  from build_embed_needs_start_at[OF h, of "''2024-01-01T00:00:00''" "''created''" None
      example_clock 0 "[]" example_event] m r p
  show ?thesis by simp
qed

subsection \<open>A failed fetch\<close>

lemma fetch_failed_empty: "fetch_failed r \<Longrightarrow> fetch_events r = Inr []"
  by (cases r) (auto simp: fetch_failed_def fetch_events_def)

lemma loop_old_empty_new:
  "loop_old [] items acc = acc @ map removed_record items"
  by (induction items arbitrary: acc) (auto simp: has_key_def removed_record_def)

lemma detect_changes_empty_new:
  "detect_changes old_db [] = Inr (map removed_record old_db)"
  by (simp add: detect_changes_def loop_old_empty_new)

lemma notify_all_total:
  assumes "\<And>t e d j. (t, e, d) \<in> set cs \<Longrightarrow> \<not> isl (build_embed (clock j) e t d)"
  shows "snd (notify_all clock i cs) = None \<and> length (fst (notify_all clock i cs)) = length cs"
  using assms
proof (induction cs arbitrary: i)
  case Nil
  then show ?case by simp
next
  case (Cons c cs)
  obtain t e d where c: "c = (t, e, d)" by (cases c)
  have "\<not> isl (build_embed (clock i) e t d)" using Cons.prems c by simp
  then obtain p where p: "build_embed (clock i) e t d = Inr p"
    by (cases "build_embed (clock i) e t d") simp_all
  have "snd (notify_all clock (Suc i) cs) = None \<and>
        length (fst (notify_all clock (Suc i) cs)) = length cs"
    by (rule Cons.IH) (use Cons.prems in auto)
  then show ?case using c p
    by (auto simp: send_to_discord_def split: prod.splits)
qed

text \<open>
  Claim C1, as stated: in a polling cycle whose fetch fails, so that the new snapshot is
  empty, while the loaded old snapshot is not empty, the cycle produces no Removed record,
  sends no notification and does not save. It fails: with one event in the old snapshot
  and a request that raises, the diff is one Removed record, one notification is sent and
  the empty snapshot is saved.
\<close>

theorem failed_fetch_removes_all_counterexample:
  "detect_changes [(''1'', example_event)] [] = Inr [(''removed'', example_event, None)] \<and>
   length (sent (poll_cycle example_clock [(''1'', example_event)] RequestException)) = 1 \<and>
   saved (poll_cycle example_clock [(''1'', example_event)] RequestException) = Some []"
proof -
  obtain p where p: "build_embed (example_clock 0) example_event ''removed'' None = Inr p"
    using build_embed_example[of "example_clock 0" "''removed''"]
    by (cases "build_embed (example_clock 0) example_event ''removed'' None") simp_all
  show ?thesis
    using p
    by (simp add: poll_cycle_def fetch_events_def detect_changes_empty_new removed_record_def
          send_to_discord_def)
qed

text \<open>
  Claim C1, amended: in a polling cycle whose fetch fails (the request raises, the status
  is not 200, or the body cannot be decoded) while the loaded old snapshot is not empty,
  the new snapshot is empty and \<^verbatim>\<open>detect_changes\<close> returns one Removed record for every
  event of the old snapshot, in its iteration order; the cycle notifies these records in
  order and then saves the empty snapshot, unless building a notification raises. When no
  notification raises, as many notifications are sent as the old snapshot has events.
\<close>

theorem failed_fetch_removes_all:
  assumes "fetch_failed r" and "old_db \<noteq> []"
  shows "fetch_events r = Inr [] \<and>
         detect_changes old_db [] = Inr (map removed_record old_db) \<and>
         map removed_record old_db \<noteq> [] \<and>
         poll_cycle clock old_db r =
           (case notify_all clock 0 (map removed_record old_db) of
              (payloads, None) \<Rightarrow> \<lparr>sent = payloads, saved = Some [], raised = None\<rparr>
            | (payloads, Some e) \<Rightarrow> \<lparr>sent = payloads, saved = None, raised = Some e\<rparr>) \<and>
         ((\<forall>(event_id, event) \<in> set old_db. \<forall>j.
              \<not> isl (build_embed (clock j) event ''removed'' None)) \<longrightarrow>
            length (sent (poll_cycle clock old_db r)) = length old_db \<and>
            saved (poll_cycle clock old_db r) = Some [] \<and>
            raised (poll_cycle clock old_db r) = None)"
proof -
  have f: "fetch_events r = Inr []" using assms(1) by (rule fetch_failed_empty)
  have d: "detect_changes old_db [] = Inr (map removed_record old_db)"
    by (rule detect_changes_empty_new)
  have n: "map removed_record old_db \<noteq> []" using assms(2) by simp
  have c: "poll_cycle clock old_db r =
           (case notify_all clock 0 (map removed_record old_db) of
              (payloads, None) \<Rightarrow> \<lparr>sent = payloads, saved = Some [], raised = None\<rparr>
            | (payloads, Some e) \<Rightarrow> \<lparr>sent = payloads, saved = None, raised = Some e\<rparr>)"
    using f d n by (simp add: poll_cycle_def)
  have t: "length (sent (poll_cycle clock old_db r)) = length old_db \<and>
           saved (poll_cycle clock old_db r) = Some [] \<and>
           raised (poll_cycle clock old_db r) = None"
    if ok: "\<forall>(event_id, event) \<in> set old_db. \<forall>j.
              \<not> isl (build_embed (clock j) event ''removed'' None)"
  proof -
    have "snd (notify_all clock 0 (map removed_record old_db)) = None \<and>
          length (fst (notify_all clock 0 (map removed_record old_db))) =
            length (map removed_record old_db)"
      by (rule notify_all_total) (use ok in \<open>auto simp: removed_record_def\<close>)
    then show ?thesis unfolding c
      by (cases "notify_all clock 0 (map removed_record old_db)") auto
  qed
  from f d n c t show ?thesis by blast
qed

theorem failed_fetch_removes_all_witness:
  "fetch_events (Response 503 None) = Inr [] \<and>
   detect_changes [(''1'', example_event)] [] = Inr (map removed_record [(''1'', example_event)]) \<and>
   length (sent (poll_cycle example_clock [(''1'', example_event)] (Response 503 None))) = 1 \<and>
   saved (poll_cycle example_clock [(''1'', example_event)] (Response 503 None)) = Some [] \<and>
   raised (poll_cycle example_clock [(''1'', example_event)] (Response 503 None)) = None"
proof -
  have h1: "fetch_failed (Response 503 None)" by (simp add: fetch_failed_def)
  have h2: "[(''1'', example_event)] \<noteq> []" by simp
  have h3: "\<forall>(event_id, event) \<in> set [(''1'', example_event)]. \<forall>j.
              \<not> isl (build_embed (example_clock j) event ''removed'' None)"
    by (simp add: build_embed_example)
  note T = failed_fetch_removes_all[OF h1 h2, of example_clock]
  from T h3 have
    "length (sent (poll_cycle example_clock [(''1'', example_event)] (Response 503 None)))
       = length [(''1'', example_event)] \<and>
     saved (poll_cycle example_clock [(''1'', example_event)] (Response 503 None)) = Some [] \<and>
     raised (poll_cycle example_clock [(''1'', example_event)] (Response 503 None)) = None"
    by blast
  moreover from T have
    "fetch_events (Response 503 None) = Inr [] \<and>
     detect_changes [(''1'', example_event)] [] = Inr (map removed_record [(''1'', example_event)])"
    by blast
  ultimately show ?thesis by simp
qed

subsection \<open>Digits and decimal numbers\<close>

lemma of_char_digit_char: "n < 10 \<Longrightarrow> (of_char (digit_char n) :: nat) = 48 + n"
  by (simp add: digit_char_def of_char_of)

lemma digit_char_eq_iff: "n < 10 \<Longrightarrow> (digit_char n = c) \<longleftrightarrow> ((of_char c :: nat) = 48 + n)"
  using of_char_digit_char[of n] by (metis of_char_eq_iff)

lemma is_digit_digit_char [simp]: "n < 10 \<Longrightarrow> is_digit (digit_char n)"
  by (simp add: is_digit_def of_char_digit_char)

lemma digit_val_digit_char [simp]: "n < 10 \<Longrightarrow> digit_val (digit_char n) = n"
  by (simp add: digit_val_def of_char_digit_char)

lemma not_space_digit_char [simp]: "n < 10 \<Longrightarrow> \<not> is_space (digit_char n)"
  by (simp add: is_space_def of_char_digit_char)

lemma in_range_digit_char:
  "n < 10 \<Longrightarrow> in_range lo hi (digit_char n) \<longleftrightarrow> (of_char lo \<le> 48 + n \<and> 48 + n \<le> (of_char hi :: nat))"
  by (simp add: in_range_def of_char_digit_char)

lemma int_of_digits_snoc: "int_of_digits (s @ [c]) = 10 * int_of_digits s + digit_val c"
  by (simp add: int_of_digits_def)

lemma int_of_digits_dec: "int_of_digits (dec n) = n"
proof (induction n rule: dec.induct)
  case (1 n)
  show ?case
  proof (cases "n < 10")
    case True
    then show ?thesis by (simp add: dec.simps int_of_digits_def)
  next
    case False
    then have "int_of_digits (dec (n div 10)) = n div 10" using 1 by simp
    then show ?thesis using False
      by (subst dec.simps) (simp add: int_of_digits_snoc)
  qed
qed

lemma dec_inj: "dec a = dec b \<Longrightarrow> a = b"
  by (metis int_of_digits_dec)

lemma dec_not_empty: "dec n \<noteq> []"
  by (subst dec.simps) simp

lemma hd_dec: "hd (dec n) \<noteq> CHR ''-''"
proof (induction n rule: dec.induct)
  case (1 n)
  show ?case
  proof (cases "n < 10")
    case True
    then show ?thesis by (simp add: dec.simps digit_char_eq_iff)
  next
    case False
    then show ?thesis using 1 dec_not_empty[of "n div 10"]
      by (subst dec.simps) simp
  qed
qed

lemma str_int_inj: "str_int a = str_int b \<Longrightarrow> a = b"
proof -
  assume eq: "str_int a = str_int b"
  have neg: "hd (str_int i) = CHR ''-'' \<longleftrightarrow> i < 0" for i
    using hd_dec[of "nat i"] by (simp add: str_int_def)
  from eq have s: "a < 0 \<longleftrightarrow> b < 0" using neg[of a] neg[of b] by simp
  show ?thesis
  proof (cases "a < 0")
    case True
    then have "dec (nat (- a)) = dec (nat (- b))" using eq s by (simp add: str_int_def)
    then have "nat (- a) = nat (- b)" by (rule dec_inj)
    then show ?thesis using True s by linarith
  next
    case False
    then have "dec (nat a) = dec (nat b)" using eq s by (simp add: str_int_def)
    then have "nat a = nat b" by (rule dec_inj)
    then show ?thesis using False s by linarith
  qed
qed

subsection \<open>Parsing the text of a valid date and time\<close>

lemma int_of_digits_pad2: "n \<le> 99 \<Longrightarrow> int_of_digits (pad2 n) = n"
proof -
  assume n: "n \<le> 99"
  have d: "n div 10 < 10" "n mod 10 < 10" using n by auto
  have "10 * (n div 10) + n mod 10 = n" by presburger
  then show ?thesis using d by (simp add: pad2_def int_of_digits_def)
qed

lemma int_of_digits_pad4: "n \<le> 9999 \<Longrightarrow> int_of_digits (pad4 n) = n"
proof -
  assume n: "n \<le> 9999"
  have h: "n div 100 \<le> 99" "n mod 100 \<le> 99" using n by auto
  have "int_of_digits (xs @ pad2 k) = 100 * int_of_digits xs + int_of_digits (pad2 k)" for xs k
    by (simp add: int_of_digits_def pad2_def)
  then have "int_of_digits (pad4 n) = 100 * (n div 100) + n mod 100"
    using h by (simp add: pad4_def int_of_digits_pad2)
  then show ?thesis by simp
qed

lemma match_Y_pad4: "y \<le> 9999 \<Longrightarrow> match_Y (pad4 y @ rest) = Some (y, rest)"
proof -
  assume y: "y \<le> 9999"
  have h: "y div 100 \<le> 99" "y mod 100 \<le> 99" using y by auto
  have d: "y div 100 div 10 < 10" "y div 100 mod 10 < 10" "y mod 100 div 10 < 10"
    "y mod 100 mod 10 < 10"
    using h by auto
  have "int_of_digits [digit_char (y div 100 div 10), digit_char (y div 100 mod 10),
          digit_char (y mod 100 div 10), digit_char (y mod 100 mod 10)] = y"
    using int_of_digits_pad4[OF y] by (simp add: pad4_def pad2_def)
  then show ?thesis using d by (simp add: pad4_def pad2_def)
qed

lemma match_m_pad2: "1 \<le> m \<Longrightarrow> m \<le> 12 \<Longrightarrow> match_m (pad2 m @ rest) = Some (m, rest)"
proof -
  assume m: "1 \<le> m" "m \<le> 12"
  have d: "m div 10 < 10" "m mod 10 < 10" using m by auto
  have alt: "(m div 10 = 1 \<and> m mod 10 \<le> 2) \<or> (m div 10 = 0 \<and> 1 \<le> m mod 10)"
    using m by presburger
  have v: "int_of_digits [digit_char (m div 10), digit_char (m mod 10)] = m"
    using int_of_digits_pad2[of m] m by (simp add: pad2_def)
  have c1: "digit_char (m div 10) = CHR ''1'' \<longleftrightarrow> m div 10 = 1"
    using d by (simp add: digit_char_eq_iff)
  have c0: "digit_char (m div 10) = CHR ''0'' \<longleftrightarrow> m div 10 = 0"
    using d by (simp add: digit_char_eq_iff)
  have r1: "in_range CHR ''0'' CHR ''2'' (digit_char (m mod 10)) \<longleftrightarrow> m mod 10 \<le> 2"
    using d by (auto simp: in_range_digit_char)
  have r2: "in_range CHR ''1'' CHR ''9'' (digit_char (m mod 10)) \<longleftrightarrow> 1 \<le> m mod 10"
    using d by (auto simp: in_range_digit_char)
  show ?thesis using alt
    by (simp only: pad2_def append_Cons append_Nil match_m.simps v c1 c0 r1 r2) auto
qed

lemma match_d_pad2: "1 \<le> d \<Longrightarrow> d \<le> 31 \<Longrightarrow> match_d (pad2 d @ rest) = Some (d, rest)"
proof -
  assume dd: "1 \<le> d" "d \<le> 31"
  have d: "d div 10 < 10" "d mod 10 < 10" using dd by auto
  have alt: "(d div 10 = 3 \<and> d mod 10 \<le> 1) \<or> (1 \<le> d div 10 \<and> d div 10 \<le> 2)
             \<or> (d div 10 = 0 \<and> 1 \<le> d mod 10)"
    using dd by presburger
  have v: "int_of_digits [digit_char (d div 10), digit_char (d mod 10)] = d"
    using int_of_digits_pad2[of d] dd by (simp add: pad2_def)
  have c3: "digit_char (d div 10) = CHR ''3'' \<longleftrightarrow> d div 10 = 3"
    using d by (simp add: digit_char_eq_iff)
  have c0: "digit_char (d div 10) = CHR ''0'' \<longleftrightarrow> d div 10 = 0"
    using d by (simp add: digit_char_eq_iff)
  have r1: "in_range CHR ''0'' CHR ''1'' (digit_char (d mod 10)) \<longleftrightarrow> d mod 10 \<le> 1"
    using d by (auto simp: in_range_digit_char)
  have r2: "in_range CHR ''1'' CHR ''2'' (digit_char (d div 10)) \<longleftrightarrow> 1 \<le> d div 10 \<and> d div 10 \<le> 2"
    using d by (auto simp: in_range_digit_char)
  have r3: "in_range CHR ''1'' CHR ''9'' (digit_char (d mod 10)) \<longleftrightarrow> 1 \<le> d mod 10"
    using d by (auto simp: in_range_digit_char)
  have dg: "is_digit (digit_char (d mod 10))" using d by simp
  show ?thesis using alt
    by (simp only: pad2_def append_Cons append_Nil match_d.simps v c3 c0 r1 r2 r3 dg) auto
qed

lemma match_H_pad2: "h \<le> 23 \<Longrightarrow> match_H (pad2 h @ rest) = Some (h, rest)"
proof -
  assume hh: "h \<le> 23"
  have d: "h div 10 < 10" "h mod 10 < 10" using hh by auto
  have alt: "(h div 10 = 2 \<and> h mod 10 \<le> 3) \<or> h div 10 \<le> 1"
    using hh by presburger
  have v: "int_of_digits [digit_char (h div 10), digit_char (h mod 10)] = h"
    using int_of_digits_pad2[of h] hh by (simp add: pad2_def)
  have c2: "digit_char (h div 10) = CHR ''2'' \<longleftrightarrow> h div 10 = 2"
    using d by (simp add: digit_char_eq_iff)
  have r1: "in_range CHR ''0'' CHR ''3'' (digit_char (h mod 10)) \<longleftrightarrow> h mod 10 \<le> 3"
    using d by (auto simp: in_range_digit_char)
  have r2: "in_range CHR ''0'' CHR ''1'' (digit_char (h div 10)) \<longleftrightarrow> h div 10 \<le> 1"
    using d by (auto simp: in_range_digit_char)
  have dg: "is_digit (digit_char (h mod 10))" using d by simp
  show ?thesis using alt
    by (simp only: pad2_def append_Cons append_Nil match_H.simps v c2 r1 r2 dg) auto
qed

lemma match_M_pad2: "m \<le> 59 \<Longrightarrow> match_M (pad2 m @ rest) = Some (m, rest)"
proof -
  assume mm: "m \<le> 59"
  have d: "m div 10 < 10" "m mod 10 < 10" using mm by auto
  have alt: "m div 10 \<le> 5" using mm by presburger
  have v: "int_of_digits [digit_char (m div 10), digit_char (m mod 10)] = m"
    using int_of_digits_pad2[of m] mm by (simp add: pad2_def)
  have r1: "in_range CHR ''0'' CHR ''5'' (digit_char (m div 10)) \<longleftrightarrow> m div 10 \<le> 5"
    using d by (auto simp: in_range_digit_char)
  have dg: "is_digit (digit_char (m mod 10))" using d by simp
  show ?thesis using alt
    by (simp only: pad2_def append_Cons append_Nil match_M.simps v r1 dg) auto
qed

lemma match_S_pad2: "s \<le> 59 \<Longrightarrow> match_S (pad2 s @ rest) = Some (s, rest)"
proof -
  assume ss: "s \<le> 59"
  have d: "s div 10 < 10" "s mod 10 < 10" using ss by auto
  have alt: "s div 10 \<le> 5" using ss by presburger
  have v: "int_of_digits [digit_char (s div 10), digit_char (s mod 10)] = s"
    using int_of_digits_pad2[of s] ss by (simp add: pad2_def)
  have c6: "digit_char (s div 10) = CHR ''6'' \<longleftrightarrow> s div 10 = 6"
    using d by (simp add: digit_char_eq_iff)
  have r1: "in_range CHR ''0'' CHR ''5'' (digit_char (s div 10)) \<longleftrightarrow> s div 10 \<le> 5"
    using d by (auto simp: in_range_digit_char)
  have dg: "is_digit (digit_char (s mod 10))" using d by simp
  show ?thesis using alt
    by (simp only: pad2_def append_Cons append_Nil match_S.simps v c6 r1 dg) auto
qed

lemma is_space_blank: "is_space CHR '' ''"
  by (simp add: is_space_def)

lemma days_in_month_le: "days_in_month y m \<le> 31"
  by (simp add: days_in_month_def)

lemma dropWhile_pad2: "n \<le> 99 \<Longrightarrow> dropWhile is_space (pad2 n @ rest) = pad2 n @ rest"
proof -
  assume "n \<le> 99"
  then have "n div 10 < 10" by auto
  then show ?thesis by (simp add: pad2_def)
qed

lemma strptime_ts_text:
  assumes "valid_datetime dt"
  shows "strptime (ts_text dt) = Some dt"
proof -
  obtain Y m d H M S where dt:
    "dt = \<lparr>year = Y, month = m, day = d, hour = H, minute = M, second = S\<rparr>"
    by (cases dt) auto
  have b: "Y \<le> 9999" "1 \<le> m" "m \<le> 12" "1 \<le> d" "d \<le> 31" "H \<le> 23" "M \<le> 59" "S \<le> 59"
    using assms days_in_month_le[of Y m] by (auto simp: valid_datetime_def dt)
  have h99: "H \<le> 99" using b by simp
  have last: "match_S (pad2 S) = Some (S, [])"
    using match_S_pad2[OF b(8), of "[]"] by simp
  show ?thesis
    using assms
    by (simp add: strptime_def ts_text_def dt match_Y_pad4[OF b(1)] match_m_pad2[OF b(2,3)]
          match_d_pad2[OF b(4,5)] dropWhile_pad2[OF h99] is_space_blank match_H_pad2[OF b(6)]
          match_M_pad2[OF b(7)] last)
qed

lemma timestamp_second:
  "timestamp (dt\<lparr>second := s\<rparr>) = timestamp dt - int (second dt) + int s"
  by (simp add: timestamp_def toordinal_def)

lemma valid_datetime_second:
  "valid_datetime dt \<Longrightarrow> s \<le> 59 \<Longrightarrow> valid_datetime (dt\<lparr>second := s\<rparr>)"
  by (simp add: valid_datetime_def)

lemma discord_timestamp_ts_text:
  "valid_datetime dt \<Longrightarrow>
   discord_timestamp (JStr (ts_text dt)) style = JStr (''<t:'' @ str_int (timestamp dt) @ '':'' @ style @ ''>'')"
  by (simp add: discord_timestamp_def strptime_ts_text)

lemma discord_timestamp_falsy: "\<not> truthy v \<Longrightarrow> discord_timestamp v style = v"
  by (cases v) (simp_all add: discord_timestamp_def strptime_def)

subsection \<open>Timestamps in the diff\<close>

lemma filter_field_diffs:
  assumes "distinct (map snd fs)" and "(key, label) \<in> set fs"
  shows "filter (\<lambda>entry. fst entry = label) (field_diffs old_event new_event fs) =
     (if changed old_event new_event key
      then [(label, (normalize key (get old_event key), normalize key (get new_event key)))]
      else [])"
  using assms
proof (induction fs)
  case Nil
  then show ?case by simp
next
  case (Cons f fs)
  obtain k l where f: "f = (k, l)" by (cases f)
  have notin: "filter (\<lambda>entry. fst entry = l') (field_diffs old_event new_event fs) = []"
    if "l' \<notin> snd ` set fs" for l'
    using that by (force simp: field_diffs_def filter_empty_conv)
  show ?case
  proof (cases "(key, label) = (k, l)")
    case True
    then show ?thesis using Cons.prems f notin[of l]
      by (auto simp: field_diffs_Cons)
  next
    case False
    then have "(key, label) \<in> set fs" using Cons.prems f by auto
    moreover then have "label \<noteq> l" using Cons.prems f by (auto simp: image_iff)
    ultimately show ?thesis using Cons f by (auto simp: field_diffs_Cons)
  qed
qed

lemma normalize_time:
  "key = ''start_at'' \<or> key = ''meetup_at'' \<Longrightarrow> normalize key v = discord_timestamp v ''F''"
  by (auto simp: normalize_def discord_timestamp_falsy)

lemma py_ne_JStr: "py_ne (JStr a) (JStr b) \<longleftrightarrow> a \<noteq> b"
  by (auto simp: py_ne_def)

text \<open>
  Claim C7: for the Start Time and Meetup Time fields, \<^verbatim>\<open>compare_events\<close> compares the
  rendered display forms: two raw timestamp strings that render to the same display
  string produce no diff entry for that field, and two raw timestamp strings that differ
  only in their seconds produce exactly one diff entry for that field. In the second part
  the two strings are the texts \<^verbatim>\<open>YYYY-MM-DD HH:MM:SS\<close> of a valid date and time and of the
  same date and time with another second; the entry is the pair of the two renderings,
  which differ.
\<close>

theorem timestamps_compare_by_display:
  assumes "(key, label) = (''start_at'', ''Start Time'') \<or>
           (key, label) = (''meetup_at'', ''Meetup Time'')"
      and "compare_events old_event new_event = Inr ds"
  shows "(get old_event key = JStr a \<and> get new_event key = JStr b \<and>
          discord_timestamp (JStr a) ''F'' = discord_timestamp (JStr b) ''F''
            \<longrightarrow> filter (\<lambda>entry. fst entry = label) ds = []) \<and>
         (valid_datetime dt \<and> s \<le> 59 \<and> s \<noteq> second dt \<and>
          get old_event key = JStr (ts_text dt) \<and>
          get new_event key = JStr (ts_text (dt\<lparr>second := s\<rparr>))
            \<longrightarrow> filter (\<lambda>entry. fst entry = label) ds =
                  [(label, (JStr (''<t:'' @ str_int (timestamp dt) @ '':F>''),
                            JStr (''<t:'' @ str_int (timestamp dt - int (second dt) + int s) @ '':F>'')))] \<and>
                str_int (timestamp dt) \<noteq> str_int (timestamp dt - int (second dt) + int s))"
proof -
  have ds: "ds = field_diffs old_event new_event fields_to_check"
    using assms(2) by (simp add: compare_events_char split: if_splits)
  have mem: "(key, label) \<in> set fields_to_check"
    using assms(1) by (auto simp: fields_to_check_def)
  have key: "key = ''start_at'' \<or> key = ''meetup_at''" using assms(1) by auto
  note F = filter_field_diffs[OF fields_to_check_distinct mem, of old_event new_event, folded ds]
  have one: "filter (\<lambda>entry. fst entry = label) ds = []"
    if "get old_event key = JStr a" "get new_event key = JStr b"
       "discord_timestamp (JStr a) ''F'' = discord_timestamp (JStr b) ''F''"
  proof -
    have "\<not> changed old_event new_event key"
      using that by (simp add: changed_def normalize_time[OF key])
    then show ?thesis using F by simp
  qed
  have two: "filter (\<lambda>entry. fst entry = label) ds =
                  [(label, (JStr (''<t:'' @ str_int (timestamp dt) @ '':F>''),
                            JStr (''<t:'' @ str_int (timestamp dt - int (second dt) + int s) @ '':F>'')))] \<and>
             str_int (timestamp dt) \<noteq> str_int (timestamp dt - int (second dt) + int s)"
    if v: "valid_datetime dt" and s: "s \<le> 59" "s \<noteq> second dt"
      and o: "get old_event key = JStr (ts_text dt)"
      and n: "get new_event key = JStr (ts_text (dt\<lparr>second := s\<rparr>))"
  proof -
    have v': "valid_datetime (dt\<lparr>second := s\<rparr>)" using v s(1) by (rule valid_datetime_second)
    have no: "normalize key (get old_event key) = JStr (''<t:'' @ str_int (timestamp dt) @ '':F>'')"
      using o by (simp add: normalize_time[OF key] discord_timestamp_ts_text[OF v])
    have nn: "normalize key (get new_event key) =
        JStr (''<t:'' @ str_int (timestamp dt - int (second dt) + int s) @ '':F>'')"
      using n by (simp add: normalize_time[OF key] discord_timestamp_ts_text[OF v'] timestamp_second)
    have "timestamp dt \<noteq> timestamp dt - int (second dt) + int s" using s(2) by simp
    then have ne: "str_int (timestamp dt) \<noteq> str_int (timestamp dt - int (second dt) + int s)"
      using str_int_inj by blast
    then have "changed old_event new_event key"
      by (simp add: changed_def no nn py_ne_JStr)
    then show ?thesis using F no nn ne by simp
  qed
  from one two show ?thesis by blast
qed

lemma discord_timestamp_short:
  "discord_timestamp (JStr ''2024-1-1 10:00:00'') ''F'' = JStr ''<t:1704103200:F>''"
  by (simp add: discord_timestamp_def strptime_eval timestamp_eval)

lemma discord_timestamp_second:
  "discord_timestamp (JStr ''2024-01-01 10:00:01'') ''F'' = JStr ''<t:1704103201:F>''"
  by (simp add: discord_timestamp_def strptime_eval timestamp_eval)

lemmas compare_eval = compare_events_def fields_to_check_def check_field_def normalize_def
  get_def py_ne_def subscript_def

theorem timestamps_compare_by_display_witness:
  "discord_timestamp (JStr ''2024-01-01 10:00:00'') ''F'' =
     discord_timestamp (JStr ''2024-1-1 10:00:00'') ''F'' \<and>
   compare_events [(''start_at'', JStr ''2024-01-01 10:00:00'')]
                  [(''start_at'', JStr ''2024-1-1 10:00:00'')] = Inr [] \<and>
   filter (\<lambda>entry. fst entry = ''Start Time'') ([] :: diffs) = [] \<and>
   compare_events [(''start_at'', JStr ''2024-01-01 10:00:00'')]
                  [(''start_at'', JStr ''2024-01-01 10:00:01'')]
     = Inr [(''Start Time'', (JStr ''<t:1704103200:F>'', JStr ''<t:1704103201:F>''))] \<and>
   filter (\<lambda>entry. fst entry = ''Start Time'')
     [(''Start Time'', (JStr ''<t:1704103200:F>'', JStr ''<t:1704103201:F>''))]
     = [(''Start Time'',
         (JStr (''<t:'' @ str_int (timestamp
            \<lparr>year = 2024, month = 1, day = 1, hour = 10, minute = 0, second = 0\<rparr>) @ '':F>''),
          JStr (''<t:'' @ str_int (timestamp
            \<lparr>year = 2024, month = 1, day = 1, hour = 10, minute = 0, second = 0\<rparr>
              - int 0 + int 1) @ '':F>'')))]"
proof -
  let ?dt = "\<lparr>year = 2024, month = 1, day = 1, hour = 10, minute = 0, second = 0\<rparr>"
  let ?o = "[(''start_at'', JStr ''2024-01-01 10:00:00'')]"
  let ?n1 = "[(''start_at'', JStr ''2024-1-1 10:00:00'')]"
  let ?n2 = "[(''start_at'', JStr ''2024-01-01 10:00:01'')]"
  have k: "(''start_at'', ''Start Time'') = (''start_at'', ''Start Time'') \<or>
           (''start_at'', ''Start Time'') = (''meetup_at'', ''Meetup Time'')"
    by simp
  have r: "discord_timestamp (JStr ''2024-01-01 10:00:00'') ''F'' =
           discord_timestamp (JStr ''2024-1-1 10:00:00'') ''F''"
    by (simp add: discord_timestamp_example discord_timestamp_short)
  have c1: "compare_events ?o ?n1 = Inr []"
    by (simp add: compare_eval discord_timestamp_example discord_timestamp_short)
  have c2: "compare_events ?o ?n2 =
      Inr [(''Start Time'', (JStr ''<t:1704103200:F>'', JStr ''<t:1704103201:F>''))]"
    by (simp add: compare_eval discord_timestamp_example discord_timestamp_second)
  have v: "valid_datetime ?dt"
    by (simp add: valid_datetime_def days_in_month_def)
  have t1: "ts_text ?dt = ''2024-01-01 10:00:00''"
    by (simp add: ts_text_def pad4_def pad2_def digit_char_simps)
  have t2: "ts_text (?dt\<lparr>second := 1\<rparr>) = ''2024-01-01 10:00:01''"
    by (simp add: ts_text_def pad4_def pad2_def digit_char_simps)
  have g1: "get ?o ''start_at'' = JStr ''2024-01-01 10:00:00''" by (simp add: get_def)
  have g2: "get ?n1 ''start_at'' = JStr ''2024-1-1 10:00:00''" by (simp add: get_def)
  have g3: "get ?n2 ''start_at'' = JStr ''2024-01-01 10:00:01''" by (simp add: get_def)
  have a: "filter (\<lambda>entry. fst entry = ''Start Time'') [] = ([] :: diffs)"
    using timestamps_compare_by_display[OF k c1,
        of "''2024-01-01 10:00:00''" "''2024-1-1 10:00:00''"] g1 g2 r
    by blast
  have s: "(1::nat) \<le> 59 \<and> (1::nat) \<noteq> second ?dt" by simp
  have b: "filter (\<lambda>entry. fst entry = ''Start Time'')
     [(''Start Time'', (JStr ''<t:1704103200:F>'', JStr ''<t:1704103201:F>''))]
     = [(''Start Time'',
         (JStr (''<t:'' @ str_int (timestamp ?dt) @ '':F>''),
          JStr (''<t:'' @ str_int (timestamp ?dt - int (second ?dt) + int 1) @ '':F>'')))]"
    using timestamps_compare_by_display[OF k c2, of _ _ ?dt 1] v s g1 g3 t1 t2
    by (metis (no_types, lifting))
  from r c1 a c2 b show ?thesis by simp
qed

subsection \<open>The description in the notification\<close>












subsection \<open>Writing and reading the snapshot file\<close>

lemma hex_digit_low: "n < 10 \<Longrightarrow> (of_char (hex_digit n) :: nat) = 48 + n"
  by (simp add: hex_digit_def of_char_of)

lemma hex_digit_high: "10 \<le> n \<Longrightarrow> n < 16 \<Longrightarrow> (of_char (hex_digit n) :: nat) = 87 + n"
  by (simp add: hex_digit_def of_char_of)

lemma hex_val_hex_digit: "n < 16 \<Longrightarrow> hex_val (hex_digit n) = Some n"
proof (cases "n < 10")
  case True
  then show ?thesis by (simp add: hex_val_def hex_digit_low)
next
  case False
  assume "n < 16"
  with False show ?thesis by (simp add: hex_val_def hex_digit_high)
qed

lemma hex_val_zero: "hex_val CHR ''0'' = Some 0"
  by (simp add: hex_val_def)

lemma unicode_escape_control:
  assumes "(of_char c :: nat) < 32"
  shows "unicode_escape CHR ''0'' CHR ''0'' (hex_digit (of_char c div 16)) (hex_digit (of_char c mod 16))
         = Some c"
proof -
  have a: "(of_char c :: nat) div 16 < 16" "(of_char c :: nat) mod 16 < 16" using assms by auto
  have "16 * ((of_char c :: nat) div 16) + of_char c mod 16 = of_char c" by presburger
  then show ?thesis using assms
    by (simp add: unicode_escape_def hex_val_zero hex_val_hex_digit[OF a(1)] hex_val_hex_digit[OF a(2)])
qed

lemma scanstring_escape_char:
  assumes "scanstring tail = Some (s, rest)"
  shows "scanstring (escape_char c @ tail) = Some (c # s, rest)"
proof -
  consider (quote) "c = CHR 0x22" | (bslash) "c = CHR 0x5C" | (nl) "c = CHR 0x0A"
    | (cr) "c = CHR 0x0D" | (tab) "c = CHR 0x09" | (bs) "c = CHR 0x08" | (ff) "c = CHR 0x0C"
    | (ctl) "c \<noteq> CHR 0x22" "c \<noteq> CHR 0x5C" "c \<noteq> CHR 0x0A" "c \<noteq> CHR 0x0D" "c \<noteq> CHR 0x09"
        "c \<noteq> CHR 0x08" "c \<noteq> CHR 0x0C" "(of_char c :: nat) < 32"
    | (plain) "c \<noteq> CHR 0x22" "c \<noteq> CHR 0x5C" "\<not> (of_char c :: nat) < 32"
    by (cases "(of_char c :: nat) < 32")  auto
  then show ?thesis
  proof cases
    case ctl
    then show ?thesis using assms unicode_escape_control[OF ctl(8)]
      by (simp add: escape_char_def)
  next
    case plain
    then have "escape_char c = [c]" by (auto simp: escape_char_def)
    then show ?thesis using plain assms by simp
  qed (use assms in \<open>simp_all add: escape_char_def unescape_def\<close>)
qed

lemma scanstring_encoded:
  "scanstring (concat (map escape_char s) @ CHR 0x22 # rest) = Some (s, rest)"
  by (induction s) (simp_all add: scanstring_escape_char)

lemma dec_digits: "c \<in> set (dec n) \<Longrightarrow> is_digit c"
proof (induction n arbitrary: c rule: dec.induct)
  case (1 n)
  show ?case
  proof (cases "n < 10")
    case True
    then have "dec n = [digit_char n]" by (simp add: dec.simps)
    then show ?thesis using "1.prems" True by simp
  next
    case False
    then have "dec n = dec (n div 10) @ [digit_char (n mod 10)]" by (subst dec.simps) simp
    then show ?thesis using 1 False by auto
  qed
qed

lemma hd_dec_zero: "0 < n \<Longrightarrow> hd (dec n) \<noteq> CHR ''0''"
proof (induction n rule: dec.induct)
  case (1 n)
  show ?case
  proof (cases "n < 10")
    case True
    then show ?thesis using "1.prems" by (simp add: dec.simps digit_char_eq_iff)
  next
    case False
    then have "0 < n div 10" by auto
    then show ?thesis using 1 False dec_not_empty[of "n div 10"]
      by (subst dec.simps) simp
  qed
qed

lemma dec_zero: "dec 0 = ''0''"
  by (simp add: dec.simps digit_char_simps)

lemma takeWhile_dec: "number_end rest \<Longrightarrow> takeWhile is_digit (dec n @ rest) = dec n"
  by (cases rest) (auto simp: number_end_def takeWhile_append dec_digits)

lemma dropWhile_dec: "number_end rest \<Longrightarrow> dropWhile is_digit (dec n @ rest) = rest"
  by (cases rest) (auto simp: number_end_def dropWhile_append dec_digits)

lemma scan_digits_dec:
  assumes "number_end rest"
  shows "scan_digits (dec n @ rest) = Some (n, rest)"
proof (cases "n = 0")
  case True
  then show ?thesis by (simp add: scan_digits_def dec_zero)
next
  case False
  obtain c cs where d: "dec n = c # cs" using dec_not_empty[of n] by (cases "dec n") auto
  have "c \<noteq> CHR ''0''" using hd_dec_zero[of n] False d by simp
  moreover have "is_digit c" using dec_digits[of c n] d by simp
  ultimately show ?thesis
    using takeWhile_dec[OF assms, of n] dropWhile_dec[OF assms, of n] d
      int_of_digits_dec[of n]
    by (simp add: scan_digits_def)
qed

lemma scan_number_str_int:
  assumes "number_end rest"
  shows "scan_number (str_int i @ rest) = Some (JInt i, rest)"
proof (cases "i < 0")
  case True
  then show ?thesis
    using scan_digits_dec[OF assms, of "nat (- i)"] assms
    by (cases rest) (auto simp: scan_number_def str_int_def number_end_def)
next
  case False
  obtain c cs where d: "dec (nat i) = c # cs"
    using dec_not_empty[of "nat i"] by (cases "dec (nat i)") auto
  have "c \<noteq> CHR ''-''" using hd_dec[of "nat i"] d by simp
  then show ?thesis
    using False scan_digits_dec[OF assms, of "nat i"] assms d
    by (cases rest) (auto simp: scan_number_def str_int_def number_end_def)
qed

lemma skip_ws_newline_indent: "skip_ws (newline_indent n @ s) = skip_ws s"
  by (simp add: skip_ws_def newline_indent_def is_ws_def dropWhile_append)

lemma skip_ws_id: "s = [] \<or> \<not> is_ws (hd s) \<Longrightarrow> skip_ws s = s"
  by (cases s) (auto simp: skip_ws_def)

lemma join_Cons: "join sep (x # xs) = x @ (if xs = [] then [] else sep @ join sep xs)"
  by (cases xs) simp_all

lemma number_end_simps [simp]:
  "number_end []"
  "number_end (newline_indent l @ s)"
  "number_end (CHR '','' # s)"
  by (simp_all add: number_end_def newline_indent_def is_digit_def)

lemma not_ws_simps [simp]:
  "\<not> is_ws CHR '']''" "\<not> is_ws CHR ''}''" "\<not> is_ws CHR '',''" "\<not> is_ws CHR '':''"
  "\<not> is_ws CHR 0x22" "is_ws CHR '' ''"
  by (simp_all add: is_ws_def)

lemma skip_ws_Cons: "\<not> is_ws c \<Longrightarrow> skip_ws (c # s) = c # s"
  by (simp add: skip_ws_def)

lemma skip_ws_blank: "skip_ws (CHR '' '' # s) = skip_ws s"
  by (simp add: skip_ws_def)

lemma is_digit_not_ws: "is_digit c \<Longrightarrow> \<not> is_ws c"
  by (auto simp: is_digit_def is_ws_def)

lemma str_int_start: "\<exists>c cs. str_int i = c # cs \<and> (c = CHR ''-'' \<or> is_digit c)"
proof -
  obtain c cs where d: "dec (nat i) = c # cs"
    using dec_not_empty[of "nat i"] by (cases "dec (nat i)") auto
  then have "is_digit c" using dec_digits[of c "nat i"] by simp
  then show ?thesis using d by (auto simp: str_int_def)
qed

lemma encode_start: "\<exists>c cs. encode l v = c # cs \<and> \<not> is_ws c"
proof (cases v)
  case (JInt i)
  obtain c cs where c: "str_int i = c # cs" "c = CHR ''-'' \<or> is_digit c"
    using str_int_start[of i] by blast
  then have "\<not> is_ws c" using is_digit_not_ws[of c] by (auto simp: is_ws_def)
  then show ?thesis using JInt c by simp
qed (auto simp: encode_str_def is_ws_def)

lemma skip_ws_encode: "skip_ws (encode l v @ s) = encode l v @ s"
  using encode_start[of l v] by (auto simp: skip_ws_Cons)

lemma encode_length: "1 \<le> length (encode l v)"
  using encode_start[of l v] by auto

lemma scan_array_items:
  assumes "\<And>x n rest. x \<in> set xs \<Longrightarrow> length (encode l x) \<le> n \<Longrightarrow> number_end rest \<Longrightarrow>
             scan_once n (encode l x @ rest) = Some (x, rest)"
      and "xs \<noteq> []"
      and "length (join ('','' @ newline_indent l) (map (encode l) xs)) < f"
  shows "scan_array f
           (join ('','' @ newline_indent l) (map (encode l) xs) @ newline_indent l' @ '']'' @ rest)
           vals
         = Some (JArr (vals @ xs), rest)"
  using assms
proof (induction xs arbitrary: vals f)
  case Nil
  then show ?case by simp
next
  case (Cons x xs)
  obtain f' where f: "f = Suc f'" using Cons.prems(3) by (cases f) auto
  show ?case
  proof (cases "xs = []")
    case True
    have len: "length (encode l x) \<le> f'" using Cons.prems(3) True f by simp
    have "scan_once f' (encode l x @ newline_indent l' @ '']'' @ rest)
          = Some (x, newline_indent l' @ '']'' @ rest)"
      by (rule Cons.prems(1)) (use len in simp_all)
    then show ?thesis using True f
      by (simp add: skip_ws_newline_indent skip_ws_Cons)
  next
    case False
    let ?sep = "'','' @ newline_indent l"
    let ?J = "join ?sep (map (encode l) xs)"
    have j: "join ?sep (map (encode l) (x # xs)) = encode l x @ ?sep @ ?J"
      using False by (simp add: join_Cons)
    have len: "length (encode l x) \<le> f'" using Cons.prems(3) f j by simp
    have len': "length ?J < f'" using Cons.prems(3) f j encode_length[of l x] by simp
    have so: "scan_once f' (encode l x @ CHR '','' # newline_indent l @ ?J @ newline_indent l' @ '']'' @ rest)
          = Some (x, CHR '','' # newline_indent l @ ?J @ newline_indent l' @ '']'' @ rest)"
      by (rule Cons.prems(1)) (use len in simp_all)
    obtain y ys where xs: "xs = y # ys" using False by (cases xs) auto
    have sk: "skip_ws (newline_indent l @ ?J @ newline_indent l' @ '']'' @ rest)
              = ?J @ newline_indent l' @ '']'' @ rest"
      unfolding skip_ws_newline_indent xs
      by (simp add: join_Cons skip_ws_encode)
    have ih: "scan_array f' (?J @ newline_indent l' @ '']'' @ rest) (vals @ [x])
              = Some (JArr ((vals @ [x]) @ xs), rest)"
      by (rule Cons.IH) (use Cons.prems(1) False len' in auto)
    show ?thesis
      unfolding j f using so sk ih
      by (simp add: skip_ws_Cons)
  qed
qed

lemma scan_object_members:
  assumes "\<And>kv n rest. kv \<in> set d \<Longrightarrow> length (encode l (snd kv)) \<le> n \<Longrightarrow> number_end rest \<Longrightarrow>
             scan_once n (encode l (snd kv) @ rest) = Some (snd kv, rest)"
      and "d \<noteq> []"
      and "distinct (map fst (pairs @ d))"
      and "length (join ('','' @ newline_indent l)
             (map (\<lambda>kv. encode_str (fst kv) @ '': '' @ encode l (snd kv)) d)) < f"
  shows "scan_object f
           (tl (join ('','' @ newline_indent l)
                  (map (\<lambda>kv. encode_str (fst kv) @ '': '' @ encode l (snd kv)) d))
            @ newline_indent l' @ ''}'' @ rest)
           pairs
         = Some (JObj (pairs @ d), rest)"
  using assms
proof (induction d arbitrary: pairs f)
  case Nil
  then show ?case by simp
next
  case (Cons kv d)
  obtain k v where kv: "kv = (k, v)" by (cases kv)
  obtain f' where f: "f = Suc f'" using Cons.prems(4) by (cases f) auto
  let ?sep = "'','' @ newline_indent l"
  let ?member = "\<lambda>kv. encode_str (fst kv) @ '': '' @ encode l (snd kv)"
  let ?J = "join ?sep (map ?member d)"
  let ?close = "newline_indent l' @ ''}'' @ rest"
  have fresh: "k \<notin> fst ` set pairs" using Cons.prems(3) kv by auto
  have ds: "dict_set pairs k v = pairs @ [(k, v)]" using fresh by (rule dict_set_fresh)
  show ?case
  proof (cases "d = []")
    case True
    have t: "tl (join ?sep (map ?member (kv # d))) @ ?close
             = concat (map escape_char k) @ CHR 0x22 # CHR '':'' # CHR '' '' # encode l v @ ?close"
      using True kv by (simp add: encode_str_def)
    have len: "length (encode l v) \<le> f'" using Cons.prems(4) True f kv by (simp add: encode_str_def)
    have so: "scan_once f' (encode l v @ ?close) = Some (v, ?close)"
      using Cons.prems(1)[of kv f' ?close] len kv by simp
    show ?thesis
      unfolding t f using so ds True kv
      by (simp add: scanstring_encoded skip_ws_Cons skip_ws_blank skip_ws_encode
            skip_ws_newline_indent)
  next
    case False
    obtain kv2 d2 where d: "d = kv2 # d2" using False by (cases d) auto
    have jq: "?J = CHR 0x22 # tl ?J"
      unfolding d by (simp add: join_Cons encode_str_def)
    let ?follow = "CHR '','' # newline_indent l @ ?J @ ?close"
    have t: "tl (join ?sep (map ?member (kv # d))) @ ?close
             = concat (map escape_char k) @ CHR 0x22 # CHR '':'' # CHR '' '' # encode l v @ ?follow"
      using False kv by (simp add: join_Cons encode_str_def)
    have total: "length (join ?sep (map ?member (kv # d)))
                 = length (?member kv) + length ?sep + length ?J"
      using False by (simp add: join_Cons)
    have len: "length (encode l v) \<le> f'" using Cons.prems(4) f kv unfolding total by simp
    have len': "length ?J < f'"
      using Cons.prems(4) f kv unfolding total by (simp add: encode_str_def)
    have so: "scan_once f' (encode l v @ ?follow) = Some (v, ?follow)"
      using Cons.prems(1)[of kv f' ?follow] len kv by simp
    have sk: "skip_ws (newline_indent l @ ?J @ ?close) = CHR 0x22 # tl ?J @ ?close"
      unfolding skip_ws_newline_indent by (subst jq) (simp add: skip_ws_Cons)
    have ih: "scan_object f' (tl ?J @ ?close) (pairs @ [(k, v)]) = Some (JObj ((pairs @ [(k, v)]) @ d), rest)"
      by (rule Cons.IH) (use Cons.prems(1,3) False len' kv in auto)
    show ?thesis
      unfolding t f using so sk ih ds kv
      by (simp add: scanstring_encoded skip_ws_Cons skip_ws_blank skip_ws_encode)
  qed
qed

lemma scan_once_null: "scan_once (Suc m) (''null'' @ rest) = Some (JNull, rest)"
  by simp

lemma scan_once_true: "scan_once (Suc m) (''true'' @ rest) = Some (JBool True, rest)"
  by simp

lemma scan_once_false: "scan_once (Suc m) (''false'' @ rest) = Some (JBool False, rest)"
  by simp

lemma scan_once_string: "scan_once (Suc m) (encode_str s @ rest) = Some (JStr s, rest)"
  by (simp add: encode_str_def scanstring_encoded)

lemma scan_once_empty_array: "scan_once (Suc m) (''[]'' @ rest) = Some (JArr [], rest)"
  by (simp add: skip_ws_Cons)

lemma scan_once_empty_object: "scan_once (Suc m) (''{}'' @ rest) = Some (JObj [], rest)"
  by (simp add: skip_ws_Cons)

lemma number_start_other:
  assumes "c = CHR ''-'' \<or> is_digit c"
  shows "c \<noteq> CHR 0x22" "c \<noteq> CHR ''{''" "c \<noteq> CHR ''[''" "c \<noteq> CHR ''n''" "c \<noteq> CHR ''t''"
    "c \<noteq> CHR ''f''" "c \<noteq> CHR '']''"
  using assms by (auto simp: is_digit_def)

lemma scan_once_number:
  assumes "c = CHR ''-'' \<or> is_digit c"
  shows "scan_once (Suc m) (c # s) = scan_number (c # s)"
  using number_start_other[OF assms] by simp

lemma scan_once_int:
  assumes "number_end rest"
  shows "scan_once (Suc m) (str_int i @ rest) = Some (JInt i, rest)"
proof -
  obtain c cs where c: "str_int i = c # cs" "c = CHR ''-'' \<or> is_digit c"
    using str_int_start[of i] by (elim exE conjE)
  have "scan_once (Suc m) (c # (cs @ rest)) = scan_number (c # (cs @ rest))"
    using c(2) by (rule scan_once_number)
  then show ?thesis using scan_number_str_int[OF assms, of i] c(1) by simp
qed

lemma encode_not_close: "\<exists>c cs. encode l v = c # cs \<and> c \<noteq> CHR '']''"
proof (cases v)
  case (JInt i)
  obtain c cs where c: "str_int i = c # cs" "c = CHR ''-'' \<or> is_digit c"
    using str_int_start[of i] by (elim exE conjE)
  have "c \<noteq> CHR '']''" using c(2) by (rule number_start_other)
  then show ?thesis using JInt c(1) by simp
qed (simp_all add: encode_str_def)

lemma scan_once_bracket:
  assumes "skip_ws body = c # t" and "c \<noteq> CHR '']''"
  shows "scan_once (Suc m) (CHR ''['' # body) = scan_array m (c # t) []"
  using assms by simp

lemma scan_once_array:
  assumes el: "\<And>x n rest. x \<in> set xs \<Longrightarrow> length (encode (Suc level) x) \<le> n \<Longrightarrow>
                 number_end rest \<Longrightarrow> scan_once n (encode (Suc level) x @ rest) = Some (x, rest)"
      and ne: "xs \<noteq> []"
      and len: "length (encode level (JArr xs)) \<le> Suc m"
  shows "scan_once (Suc m) (encode level (JArr xs) @ rest) = Some (JArr xs, rest)"
proof -
  let ?J = "join ('','' @ newline_indent (Suc level)) (map (encode (Suc level)) xs)"
  let ?close = "newline_indent level @ '']'' @ rest"
  obtain x xs' where xs: "xs = x # xs'" using ne by (cases xs) simp_all
  obtain c cs where c: "encode (Suc level) x = c # cs" "c \<noteq> CHR '']''"
    using encode_not_close[of "Suc level" x] by (elim exE conjE)
  obtain t where j: "?J @ ?close = c # t"
    unfolding xs using c(1) by (simp add: join_Cons)
  have sk: "skip_ws (newline_indent (Suc level) @ ?J @ ?close) = ?J @ ?close"
    unfolding skip_ws_newline_indent xs by (simp add: join_Cons skip_ws_encode)
  have l: "length ?J < m" using len ne by (simp add: newline_indent_def)
  have arr: "scan_array m (?J @ ?close) [] = Some (JArr ([] @ xs), rest)"
    using el ne l by (rule scan_array_items)
  have "skip_ws (newline_indent (Suc level) @ ?J @ ?close) = c # t"
    using sk j by simp
  then have "scan_once (Suc m) (CHR ''['' # newline_indent (Suc level) @ ?J @ ?close)
        = scan_array m (c # t) []"
    using c(2) by (rule scan_once_bracket)
  then have "scan_once (Suc m) (CHR ''['' # newline_indent (Suc level) @ ?J @ ?close)
        = scan_array m (?J @ ?close) []"
    unfolding j[symmetric] .
  then show ?thesis using arr ne by simp
qed

lemma scan_once_object:
  assumes el: "\<And>kv n rest. kv \<in> set d \<Longrightarrow> length (encode (Suc level) (snd kv)) \<le> n \<Longrightarrow>
                 number_end rest \<Longrightarrow>
                 scan_once n (encode (Suc level) (snd kv) @ rest) = Some (snd kv, rest)"
      and ne: "d \<noteq> []"
      and dist: "distinct (map fst d)"
      and len: "length (encode level (JObj d)) \<le> Suc m"
  shows "scan_once (Suc m) (encode level (JObj d) @ rest) = Some (JObj d, rest)"
proof -
  let ?member = "\<lambda>kv. encode_str (fst kv) @ '': '' @ encode (Suc level) (snd kv)"
  let ?J = "join ('','' @ newline_indent (Suc level)) (map ?member d)"
  let ?close = "newline_indent level @ ''}'' @ rest"
  obtain kv d' where d: "d = kv # d'" using ne by (cases d) simp_all
  have jq: "?J = CHR 0x22 # tl ?J"
    unfolding d by (simp add: join_Cons encode_str_def)
  have sk: "skip_ws (newline_indent (Suc level) @ ?J @ ?close) = CHR 0x22 # tl ?J @ ?close"
    unfolding skip_ws_newline_indent by (subst jq) (simp add: skip_ws_Cons)
  have l: "length ?J < m" using len ne by (simp add: newline_indent_def)
  have dist': "distinct (map fst ([] @ d))" using dist by simp
  have obj: "scan_object m (tl ?J @ ?close) [] = Some (JObj ([] @ d), rest)"
    using el ne dist' l by (rule scan_object_members)
  have "scan_once (Suc m) (CHR ''{'' # newline_indent (Suc level) @ ?J @ ?close)
        = scan_object m (tl ?J @ ?close) []"
    using sk by simp
  then show ?thesis using obj ne by simp
qed

lemma scan_once_encode:
  "distinct_keys v \<Longrightarrow> length (encode level v) \<le> n \<Longrightarrow> number_end rest \<Longrightarrow>
   scan_once n (encode level v @ rest) = Some (v, rest)"
proof (induction v arbitrary: level n rest)
  case JNull
  obtain m where n: "n = Suc m" using JNull.prems(2) by (cases n) simp_all
  show ?case unfolding n using scan_once_null[of m rest] by simp
next
  case (JBool b)
  obtain m where n: "n = Suc m" using JBool.prems(2) encode_length[of level "JBool b"]
    by (cases n) simp_all
  show ?case unfolding n using scan_once_true[of m rest] scan_once_false[of m rest]
    by (cases b) simp_all
next
  case (JInt i)
  obtain m where n: "n = Suc m" using JInt.prems(2) encode_length[of level "JInt i"]
    by (cases n) simp_all
  show ?case unfolding n using scan_once_int[OF JInt.prems(3), of m i] by simp
next
  case (JStr s)
  obtain m where n: "n = Suc m" using JStr.prems(2) encode_length[of level "JStr s"]
    by (cases n) simp_all
  show ?case unfolding n using scan_once_string[of m s rest] by simp
next
  case (JArr xs)
  obtain m where n: "n = Suc m" using JArr.prems(2) encode_length[of level "JArr xs"]
    by (cases n) simp_all
  show ?case
  proof (cases "xs = []")
    case True
    then show ?thesis unfolding n using scan_once_empty_array[of m rest] by simp
  next
    case False
    have el: "scan_once k (encode (Suc level) y @ r) = Some (y, r)"
      if "y \<in> set xs" "length (encode (Suc level) y) \<le> k" "number_end r" for y k r
    proof -
      have "distinct_keys y" using JArr.prems(1) that(1) by (simp add: list_all_iff)
      then show ?thesis using that(2,3) by (rule JArr.IH[OF that(1)])
    qed
    show ?thesis unfolding n
      by (rule scan_once_array[OF el False]) (use JArr.prems(2) n in simp_all)
  qed
next
  case (JObj d)
  obtain m where n: "n = Suc m" using JObj.prems(2) encode_length[of level "JObj d"]
    by (cases n) simp_all
  show ?case
  proof (cases "d = []")
    case True
    then show ?thesis unfolding n using scan_once_empty_object[of m rest] by simp
  next
    case False
    have el: "scan_once k (encode (Suc level) (snd kv) @ r) = Some (snd kv, r)"
      if "kv \<in> set d" "length (encode (Suc level) (snd kv)) \<le> k" "number_end r" for kv k r
    proof -
      have s: "snd kv \<in> Basic_BNFs.snds kv" by (cases kv) simp
      have "distinct_keys (snd kv)" using JObj.prems(1) that(1) by (simp add: list_all_iff)
      then show ?thesis using that(2,3) by (rule JObj.IH[OF that(1) s])
    qed
    have dist: "distinct (map fst d)" using JObj.prems(1) by simp
    show ?thesis unfolding n
      by (rule scan_once_object[OF el False dist]) (use JObj.prems(2) n in simp_all)
  qed
qed

lemma json_loads_dumps: "distinct_keys v \<Longrightarrow> json_loads (json_dumps v) = Some v"
  using scan_once_encode[of v 0 "length (encode 0 v)" "[]"] skip_ws_encode[of 0 v "[]"]
  by (simp add: json_loads_def json_dumps_def skip_ws_def)

lemma load_db_save_db:
  "distinct_keys (json_of_snapshot data) \<Longrightarrow> load_db (save_db data file) = json_of_snapshot data"
  by (simp add: load_db_def save_db_def json_loads_dumps)

text \<open>
  Claim C10: for every snapshot representable in the durable serialization format (string
  keys, JSON-representable event records), \<^verbatim>\<open>save_db\<close> followed by \<^verbatim>\<open>load_db\<close> returns a
  snapshot equal to the one saved. The snapshot is a dict of event dicts whose values are
  \<^verbatim>\<open>None\<close>, booleans, integers, strings, lists and dicts; its keys are distinct at every
  level, as those of a Python dict are; whatever the file held before, \<^verbatim>\<open>load_db\<close>
  returns the same ids in the same order with the same events.
\<close>

theorem save_db_load_db:
  assumes "distinct_keys (json_of_snapshot data)"
  shows "load_db (save_db data file) = json_of_snapshot data"
  using assms by (rule load_db_save_db)

theorem save_db_load_db_witness:
  "load_db (save_db [(''1'', example_event)] Missing) = json_of_snapshot [(''1'', example_event)]"
  by (rule save_db_load_db) (simp add: json_of_snapshot_def example_event_def)

end
